theory Spec2Isabelle
  imports Main "HOL-Library.Word"
begin

unbundle bit_operations_syntax

section \<open>Data\<close>

text \<open>
  A \<open>Uint8Array\<close> is a list of 8-bit words. A JavaScript string is a \<open>string\<close>; the model
  covers strings of ASCII code units, which is where every alphabet of \<open>ipns.ts\<close> lives:
  \<open>toLowerCase\<close> and \<open>toUpperCase\<close> change the 26 letters of ASCII and nothing else. A
  \<open>BigInt\<close> is an \<open>int\<close>.
\<close>

type_synonym byte = "8 word"
type_synonym bytes = "byte list"

text \<open>The errors thrown inside the coders of the dependency \<open>@scure/base\<close>.\<close>

datatype lib_error =
    BadRadix
  | InvalidWord nat
  | CarryOverflow
  | ExcessPadding
  | NonZeroPadding nat
  | DigitOutside nat
  | UnknownLetter char
  | OddLength nat
  | PaddingNotWhole
  | PaddingTooMuch

text \<open>
  Everything a call of \<open>parseAddress\<close>, \<open>formatPublicKey\<close> or \<open>getKeys\<close> can throw:
  \<^item> \<open>UnsupportedFormat\<close> is \<open>Error('Unsupported Base-X Format')\<close>;
  \<^item> \<open>InvalidPrefix h\<close> is \<open>Error('Invalid IPNS Key Prefix: ' + h)\<close>;
  \<^item> \<open>InvalidSeedLength\<close> is \<open>TypeError('Seed must be 32 bytes in length')\<close>;
  \<^item> \<open>LibraryError e\<close> is an error thrown by \<open>hex\<close> or \<open>base32\<close>;
  \<^item> \<open>SyntaxError\<close> is what \<open>BigInt(...)\<close> throws on a string that is no number.
\<close>

datatype error =
    UnsupportedFormat
  | InvalidPrefix string
  | InvalidSeedLength
  | LibraryError lib_error
  | SyntaxError

text \<open>
  The message of the errors that \<open>ipns.ts\<close> builds itself. The text of the others is made
  by the dependency or by the language and is not part of the model.
\<close>

definition message :: "error \<Rightarrow> string option" where
  "message e = (case e of
       UnsupportedFormat \<Rightarrow> Some ''Unsupported Base-X Format''
     | InvalidPrefix h \<Rightarrow> Some (''Invalid IPNS Key Prefix: '' @ h)
     | InvalidSeedLength \<Rightarrow> Some ''Seed must be 32 bytes in length''
     | LibraryError _ \<Rightarrow> None
     | SyntaxError \<Rightarrow> None)"

record keys =
  publicKey :: string
  privateKey :: string
  base36 :: string
  base32 :: string
  base16 :: string
  contenthash :: string

section \<open>String primitives of the language\<close>

definition startsWith :: "string \<Rightarrow> string \<Rightarrow> bool" where
  "startsWith s p = (take (length p) s = p)"

definition slice_str :: "string \<Rightarrow> nat \<Rightarrow> string" where
  "slice_str s n = drop n s"

definition lower_char :: "char \<Rightarrow> char" where
  "lower_char c = (let n = (of_char c :: nat) in
     if 65 \<le> n \<and> n \<le> 90 then char_of (n + 32) else c)"

definition upper_char :: "char \<Rightarrow> char" where
  "upper_char c = (let n = (of_char c :: nat) in
     if 97 \<le> n \<and> n \<le> 122 then char_of (n - 32) else c)"

definition toLowerCase :: "string \<Rightarrow> string" where
  "toLowerCase s = map lower_char s"

definition toUpperCase :: "string \<Rightarrow> string" where
  "toUpperCase s = map upper_char s"

text \<open>\<open>s.indexOf(c)\<close> for a one-character \<open>c\<close>: the first position, or \<open>-1\<close>.\<close>

fun index_from :: "nat \<Rightarrow> string \<Rightarrow> char \<Rightarrow> int" where
  "index_from i [] c = - 1"
| "index_from i (x # xs) c = (if x = c then int i else index_from (Suc i) xs c)"

definition indexOf :: "string \<Rightarrow> char \<Rightarrow> int" where
  "indexOf s c = index_from 0 s c"

definition padStart :: "string \<Rightarrow> nat \<Rightarrow> char \<Rightarrow> string" where
  "padStart s n c = replicate (n - length s) c @ s"

section \<open>Alphabets\<close>

text \<open>
  \<open>b36\<close> is the constant of that name in \<open>parseAddress\<close>; its first \<open>radix\<close> characters are
  also the digits of \<open>toString(radix)\<close>. The other two are the alphabets that the
  dependency gives to \<open>hex\<close> and to \<open>base32\<close>.
\<close>

definition b36 :: string where
  "b36 = ''0123456789abcdefghijklmnopqrstuvwxyz''"

definition hex_alphabet :: string where
  "hex_alphabet = ''0123456789abcdef''"

definition base32_alphabet :: string where
  "base32_alphabet = ''ABCDEFGHIJKLMNOPQRSTUVWXYZ234567''"

section \<open>BigInt\<close>

text \<open>
  \<open>n.toString(radix)\<close> of a \<open>BigInt\<close>: the digits of the absolute value, most significant
  first, no leading zero, after a minus sign when \<open>n\<close> is negative. \<open>ipns.ts\<close> calls it
  with the radix 16 and the radix 36 only, so the \<open>RangeError\<close> of a radix outside 2 to
  36 has no branch here.
\<close>

function nat_toString :: "nat \<Rightarrow> nat \<Rightarrow> string" where
  "nat_toString radix n =
     (if radix < 2 \<or> n < radix then [b36 ! n]
      else nat_toString radix (n div radix) @ [b36 ! (n mod radix)])"
  by pat_completeness auto
termination
  by (relation "measure (\<lambda>(radix, n). n)") auto

definition toString :: "int \<Rightarrow> nat \<Rightarrow> string" where
  "toString n radix =
     (if n < 0 then CHR ''-'' # nat_toString radix (nat (- n))
      else nat_toString radix (nat n))"

text \<open>
  \<open>BigInt('0x' + s)\<close> for a string \<open>s\<close> without white space: the value of the hexadecimal
  digits of \<open>s\<close>, of either case; a \<open>SyntaxError\<close> when \<open>s\<close> is empty or holds another
  character.
\<close>

definition BigInt_0x :: "string \<Rightarrow> error + int" where
  "BigInt_0x s =
     (if s = [] \<or> (\<exists>c \<in> set s. indexOf hex_alphabet (lower_char c) < 0)
      then Inl SyntaxError
      else Inr (foldl (\<lambda>a c. a * 16 + indexOf hex_alphabet (lower_char c)) 0 s))"

section \<open>The coders of the dependency\<close>

text \<open>
  Modelled from the spec: \<open>hex\<close> and \<open>base32\<close> are imported from the dependency
  \<open>@scure/base\<close> (version 1.1), which is not part of the source tree. The spec asks for
  lower-case hexadecimal and for the RFC 4648 base-32 alphabet; the definitions below
  follow the way the dependency builds both, as a chain of a radix conversion on bit
  groups (\<open>convertRadix2\<close>), an alphabet, a padding with \<open>=\<close> to whole bytes (base-32
  only; 40 bytes are 64 characters and need none) and a normalisation of the input (hex
  only: an even length, then lower case). Every error that the chain throws on data is a
  value of \<open>lib_error\<close>.
\<close>

definition and_then :: "'e + 'a \<Rightarrow> ('a \<Rightarrow> 'e + 'b) \<Rightarrow> 'e + 'b" where
  "and_then r f = (case r of Inl e \<Rightarrow> Inl e | Inr x \<Rightarrow> f x)"

fun map_result :: "('a \<Rightarrow> 'e + 'b) \<Rightarrow> 'a list \<Rightarrow> 'e + 'b list" where
  "map_result f [] = Inr []"
| "map_result f (x # xs) =
     (case f x of Inl e \<Rightarrow> Inl e
      | Inr y \<Rightarrow> (case map_result f xs of Inl e \<Rightarrow> Inl e | Inr ys \<Rightarrow> Inr (y # ys)))"

definition radix2carry :: "nat \<Rightarrow> nat \<Rightarrow> nat" where
  "radix2carry from to = from + (to - gcd from to)"

text \<open>
  The inner loop of \<open>convertRadix2\<close>:
  \<open>for (; pos >= to; pos -= to) res.push(((carry >> (pos - to)) & mask) >>> 0)\<close>.
\<close>

function emit :: "nat \<Rightarrow> nat \<Rightarrow> nat \<Rightarrow> nat list \<Rightarrow> nat \<times> nat list" where
  "emit to carry pos res =
     (if 0 < to \<and> to \<le> pos
      then emit to carry (pos - to) (res @ [drop_bit (pos - to) carry AND (2 ^ to - 1)])
      else (pos, res))"
  by pat_completeness auto
termination
  by (relation "measure (\<lambda>(to, carry, pos, res). pos)") auto

text \<open>One round of the outer loop, on the state \<open>(carry, pos, res)\<close>.\<close>

definition radix_step :: "nat \<Rightarrow> nat \<Rightarrow> nat \<times> nat \<times> nat list \<Rightarrow> nat
    \<Rightarrow> lib_error + nat \<times> nat \<times> nat list" where
  "radix_step from to st n =
     (case st of (carry, pos, res) \<Rightarrow>
        if 2 ^ from \<le> n then Inl (InvalidWord n)
        else if 32 < pos + from then Inl CarryOverflow
        else (let carry1 = push_bit from carry OR n in
              case emit to carry1 (pos + from) res of
                (pos1, res1) \<Rightarrow> Inr (carry1 AND (2 ^ pos1 - 1), pos1, res1)))"

fun radix_loop :: "nat \<Rightarrow> nat \<Rightarrow> nat \<times> nat \<times> nat list \<Rightarrow> nat list
    \<Rightarrow> lib_error + nat \<times> nat \<times> nat list" where
  "radix_loop from to st [] = Inr st"
| "radix_loop from to st (n # ns) =
     (case radix_step from to st n of Inl e \<Rightarrow> Inl e
      | Inr st1 \<Rightarrow> radix_loop from to st1 ns)"

definition convertRadix2 :: "nat list \<Rightarrow> nat \<Rightarrow> nat \<Rightarrow> bool \<Rightarrow> lib_error + nat list" where
  "convertRadix2 data from to padding =
     (if from = 0 \<or> 32 < from \<or> to = 0 \<or> 32 < to \<or> 32 < radix2carry from to
      then Inl BadRadix
      else case radix_loop from to (0, 0, []) data of
        Inl e \<Rightarrow> Inl e
      | Inr (carry, pos, res) \<Rightarrow>
          (let carry1 = push_bit (to - pos) carry AND (2 ^ to - 1) in
           if \<not> padding \<and> from \<le> pos then Inl ExcessPadding
           else if \<not> padding \<and> carry1 \<noteq> 0 then Inl (NonZeroPadding carry1)
           else if padding \<and> 0 < pos then Inr (res @ [carry1])
           else Inr res))"

definition radix2_encode :: "nat \<Rightarrow> bytes \<Rightarrow> lib_error + nat list" where
  "radix2_encode bits bs = convertRadix2 (map unat bs) 8 bits True"

definition radix2_decode :: "nat \<Rightarrow> nat list \<Rightarrow> lib_error + bytes" where
  "radix2_decode bits digits =
     and_then (convertRadix2 digits bits 8 False) (\<lambda>ns. Inr (map of_nat ns))"

definition alphabet_encode :: "string \<Rightarrow> nat list \<Rightarrow> lib_error + string" where
  "alphabet_encode alphabet digits =
     map_result (\<lambda>i. if length alphabet \<le> i then Inl (DigitOutside i)
                     else Inr (alphabet ! i)) digits"

definition alphabet_decode :: "string \<Rightarrow> string \<Rightarrow> lib_error + nat list" where
  "alphabet_decode alphabet input =
     map_result (\<lambda>letter. if indexOf alphabet letter = - 1 then Inl (UnknownLetter letter)
                          else Inr (nat (indexOf alphabet letter))) input"

text \<open>\<open>while ((data.length * bits) % 8) data.push('=')\<close>\<close>

function padding_encode :: "nat \<Rightarrow> string \<Rightarrow> string" where
  "padding_encode bits data =
     (if (length data * bits) mod 8 \<noteq> 0 then padding_encode bits (data @ ''='')
      else data)"
  by pat_completeness auto
termination
proof (relation "measure (\<lambda>(bits, data). (8 - length data mod 8) mod 8)")
  show "wf (measure (\<lambda>(bits, data). (8 - length data mod 8) mod 8))"
    by simp
next
  fix bits :: nat and data :: string
  assume a: "(length data * bits) mod 8 \<noteq> 0"
  have "length data mod 8 \<noteq> 0"
  proof
    assume "length data mod 8 = 0"
    then have "8 dvd length data" by (simp add: mod_eq_0_iff_dvd)
    then have "8 dvd length data * bits" by (rule dvd_mult2)
    with a show False by (simp add: mod_eq_0_iff_dvd)
  qed
  moreover have "length data mod 8 < 8" by simp
  ultimately have "(8 - Suc (length data) mod 8) mod 8 < (8 - length data mod 8) mod 8"
    unfolding mod_Suc by (cases "Suc (length data mod 8) = 8") auto
  then show "((bits, data @ ''=''), (bits, data))
      \<in> measure (\<lambda>(bits, data). (8 - length data mod 8) mod 8)"
    by simp
qed

text \<open>
  \<open>for (; end > 0 && input[end - 1] === '='; end--)
       if (!(((end - 1) * bits) % 8)) throw ...\<close>
\<close>

fun strip_padding :: "nat \<Rightarrow> string \<Rightarrow> nat \<Rightarrow> lib_error + string" where
  "strip_padding bits input 0 = Inr (take 0 input)"
| "strip_padding bits input (Suc e) =
     (if input ! e = CHR ''='' then
        (if (e * bits) mod 8 = 0 then Inl PaddingTooMuch else strip_padding bits input e)
      else Inr (take (Suc e) input))"

definition padding_decode :: "nat \<Rightarrow> string \<Rightarrow> lib_error + string" where
  "padding_decode bits input =
     (if (length input * bits) mod 8 \<noteq> 0 then Inl PaddingNotWhole
      else strip_padding bits input (length input))"

definition hex_encode :: "bytes \<Rightarrow> lib_error + string" where
  "hex_encode bs =
     and_then (radix2_encode 4 bs) (alphabet_encode hex_alphabet)"

definition hex_decode :: "string \<Rightarrow> lib_error + bytes" where
  "hex_decode s =
     (if odd (length s) then Inl (OddLength (length s))
      else and_then (alphabet_decode hex_alphabet (toLowerCase s)) (radix2_decode 4))"

definition base32_encode :: "bytes \<Rightarrow> lib_error + string" where
  "base32_encode bs =
     and_then (radix2_encode 5 bs) (\<lambda>ds.
     and_then (alphabet_encode base32_alphabet ds) (\<lambda>cs.
     Inr (padding_encode 5 cs)))"

definition base32_decode :: "string \<Rightarrow> lib_error + bytes" where
  "base32_decode s =
     and_then (padding_decode 5 s) (\<lambda>cs.
     and_then (alphabet_decode base32_alphabet cs) (radix2_decode 5))"

definition lib :: "lib_error + 'a \<Rightarrow> error + 'a" where
  "lib r = (case r of Inl e \<Rightarrow> Inl (LibraryError e) | Inr x \<Rightarrow> Inr x)"

section \<open>The functions of \<open>ipns.ts\<close>\<close>

text \<open>
  \<open>formatPublicKey\<close>: bytes to hex string, hex string to \<open>BigInt\<close>, \<open>BigInt\<close> to a base-36
  string, returned after \<open>ipns://k\<close>.
\<close>

definition formatPublicKey :: "bytes \<Rightarrow> error + string" where
  "formatPublicKey pubBytes =
     and_then (lib (hex_encode pubBytes)) (\<lambda>hexString.
     and_then (BigInt_0x hexString) (\<lambda>pubBigInt.
     (let base36String = toString pubBigInt 36 in
      Inr (''ipns://k'' @ base36String))))"

text \<open>
  The loop of the \<open>k\<close> branch of \<open>parseAddress\<close>, over the characters of \<open>address\<close> from
  the second one: \<open>result = result * 36n + BigInt(b36.indexOf(address.charAt(i++)))\<close>.
\<close>

definition base36_value :: "string \<Rightarrow> int" where
  "base36_value address = foldl (\<lambda>result c. result * 36 + indexOf b36 c) 0 (drop 1 address)"

text \<open>
  The first half of \<open>parseAddress\<close>: the scheme marker is removed and the rest is put in
  lower case (\<open>normalize_address\<close>), then the branch of the leading character computes
  \<open>hexKey\<close>.
\<close>

definition normalize_address :: "string \<Rightarrow> string" where
  "normalize_address address =
     toLowerCase (if startsWith address ''ipns://'' then slice_str address 7 else address)"

definition parse_hexKey :: "string \<Rightarrow> error + string" where
  "parse_hexKey address0 =
     (let address = normalize_address address0 in
      if startsWith address ''k'' then
        Inr (padStart (toString (base36_value address) 16) 80 (CHR ''0''))
      else if startsWith address ''b'' then
        and_then (lib (base32_decode (toUpperCase (slice_str address 1)))) (\<lambda>bs.
        lib (hex_encode bs))
      else if startsWith address ''f'' then
        Inr (slice_str address 1)
      else Inl UnsupportedFormat)"

text \<open>The second half: the check of the prefix and of the length, then the decoding.\<close>

definition parseAddress :: "string \<Rightarrow> error + bytes" where
  "parseAddress address =
     and_then (parse_hexKey address) (\<lambda>hexKey.
       if startsWith hexKey ''0172002408011220'' \<and> length hexKey = 80
       then lib (hex_decode hexKey)
       else Inl (InvalidPrefix hexKey))"

text \<open>
  \<open>getKeys\<close>. The key material comes from \<open>ed25519.getPublicKey\<close> of the dependency
  \<open>@noble/curves\<close>, which is outside the source tree: it is the parameter \<open>getPublicKey\<close>.
\<close>

definition getKeys :: "(bytes \<Rightarrow> bytes) \<Rightarrow> bytes \<Rightarrow> error + keys" where
  "getKeys getPublicKey seed =
     (if length seed \<noteq> 32 then Inl InvalidSeedLength
      else
        (let pubKey = getPublicKey seed;
             pubKeyBytes = [0x01, 0x72, 0x00, 0x24, 0x08, 0x01, 0x12, 0x20] @ pubKey in
         and_then (lib (hex_encode pubKeyBytes)) (\<lambda>h.
         (let hexKey = toLowerCase h in
          and_then (lib (hex_encode ([0x08, 0x01, 0x12, 0x40] @ seed @ pubKey))) (\<lambda>priv.
          and_then (BigInt_0x hexKey) (\<lambda>n.
          and_then (lib (base32_encode pubKeyBytes)) (\<lambda>b32.
          Inr \<lparr> publicKey = ''0x'' @ hexKey,
                privateKey = ''0x'' @ priv,
                base36 = ''ipns://k'' @ toString n 36,
                base32 = ''ipns://b'' @ toLowerCase b32,
                base16 = ''ipns://f'' @ hexKey,
                contenthash = ''0xe501'' @ hexKey \<rparr>)))))))"

section \<open>Notions used in the proofs\<close>

text \<open>
  The value of a list of digits in base \<open>b\<close>, most significant digit first; the invariant
  of the outer loop of \<open>convertRadix2\<close> after the words \<open>xs\<close>; the pairs of group sizes
  for which no check of the arguments of \<open>convertRadix2\<close> fires; the two hexadecimal
  digits of each byte.
\<close>

definition val :: "nat \<Rightarrow> nat list \<Rightarrow> nat" where
  "val b ds = foldl (\<lambda>a d. a * b + d) 0 ds"

definition radix_inv :: "nat \<Rightarrow> nat \<Rightarrow> nat list \<Rightarrow> nat \<times> nat \<times> nat list \<Rightarrow> bool" where
  "radix_inv from to xs st =
     (case st of (carry, pos, res) \<Rightarrow>
        pos < to \<and> carry < 2 ^ pos
        \<and> val (2 ^ to) res * 2 ^ pos + carry = val (2 ^ from) xs
        \<and> length res * to + pos = length xs * from
        \<and> (\<forall>d \<in> set res. d < 2 ^ to))"

definition hex_digits :: "bytes \<Rightarrow> nat list" where
  "hex_digits bs = concat (map (\<lambda>b. [unat b div 16, unat b mod 16]) bs)"

definition hex_string :: "bytes \<Rightarrow> string" where
  "hex_string bs = map ((!) hex_alphabet) (hex_digits bs)"

definition good_radix :: "nat \<Rightarrow> nat \<Rightarrow> bool" where
  "good_radix from to = (0 < from \<and> 0 < to \<and> from + to \<le> 33 \<and> radix2carry from to \<le> 32)"

text \<open>
  The known vector of \<open>test/ipns.test.js\<close>: a seed and the public key that
  \<open>ed25519.getPublicKey\<close> derives from it. \<open>vector_getPublicKey\<close> returns that public key;
  it takes the place of \<open>ed25519.getPublicKey\<close> in the closed examples.
\<close>

definition vector_seed :: bytes where
  "vector_seed =
    [0x06, 0x81, 0xd6, 0x42, 0x0a, 0xbb, 0x1b, 0xa4, 0x7a, 0xcd, 0x5c, 0x03, 0xc8, 0xe5, 0xee, 0x84,
     0x18, 0x5a, 0x26, 0x73, 0x57, 0x6b, 0x26, 0x2e, 0x23, 0x4e, 0x50, 0xc4, 0x6d, 0x86, 0xf5, 0x97]"

definition vector_pub :: bytes where
  "vector_pub =
    [0x12, 0xc8, 0x29, 0x9e, 0xc2, 0xc5, 0x1d, 0xff, 0xbb, 0xcb, 0x4f, 0x9f, 0xcc, 0xad, 0xce, 0xe1,
     0x42, 0x4c, 0xb2, 0x37, 0xe9, 0xb3, 0x0d, 0x3c, 0xd7, 0x2d, 0x47, 0xc1, 0x81, 0x03, 0x68, 0x9d]"

definition vector_getPublicKey :: "bytes \<Rightarrow> bytes" where
  "vector_getPublicKey seed = vector_pub"

declare emit.simps [simp del]
declare nat_toString.simps [simp del]
declare padding_encode.simps [simp del]

section \<open>The radix conversion\<close>

text \<open>
  The bit operations of \<open>convertRadix2\<close> are written as arithmetic. Its loops keep
  \<open>radix_inv\<close>: the groups pushed so far, followed by the \<open>pos\<close> bits left in \<open>carry\<close>, hold
  the value of the words read so far. When the bits of the input fill the groups of
  the output exactly, the result has the value of the input; with padding there is a
  result for every input.
\<close>

lemma val_Nil: "val b [] = 0"
  by (simp add: val_def)

lemma val_snoc: "val b (ds @ [d]) = val b ds * b + d"
  by (simp add: val_def)

lemma and_mask_nat: "(c::nat) AND (2 ^ k - 1) = c mod 2 ^ k"
  unfolding mask_eq_exp_minus_1 [symmetric] take_bit_eq_mask [symmetric] take_bit_eq_mod ..

lemma and_mask_Suc: "(c::nat) AND (2 ^ k - Suc 0) = c mod 2 ^ k"
  using and_mask_nat [of c k] by simp

lemma push_or_nat:
  assumes "n < 2 ^ k"
  shows "push_bit k (c::nat) OR n = c * 2 ^ k + n"
proof -
  have n: "take_bit k n = n" using assms by (simp add: take_bit_nat_eq_self)
  have "push_bit k c + n = push_bit k c OR n"
  proof (rule disjunctive_add)
    fix i
    have "bit n i \<Longrightarrow> i < k"
      using bit_take_bit_iff [of k n i] n by simp
    then show "\<not> bit (push_bit k c) i \<or> \<not> bit n i"
      by (auto simp: bit_push_bit_iff)
  qed
  then show ?thesis by (simp add: push_bit_eq_mult)
qed

lemma emit_digit: "drop_bit k (c::nat) AND (2 ^ to - 1) = (c div 2 ^ k) mod 2 ^ to"
  unfolding and_mask_nat drop_bit_eq_div ..

lemma split_mod_pow:
  assumes "to \<le> p"
  shows "(c::nat) mod 2 ^ p = ((c div 2 ^ (p - to)) mod 2 ^ to) * 2 ^ (p - to) + c mod 2 ^ (p - to)"
proof -
  have "(2::nat) ^ p = 2 ^ (p - to) * 2 ^ to"
    using assms by (simp flip: power_add)
  then show ?thesis
    by (simp add: mod_mult2_eq)
qed

lemma emit_inv:
  "0 < to \<Longrightarrow> emit to c p res = (p', res') \<Longrightarrow>
         p' < to \<and> length res' * to + p' = length res * to + p
         \<and> val (2 ^ to) res' * 2 ^ p' + c mod 2 ^ p' = val (2 ^ to) res * 2 ^ p + c mod 2 ^ p
         \<and> ((\<forall>d \<in> set res. d < 2 ^ to) \<longrightarrow> (\<forall>d \<in> set res'. d < 2 ^ to))"
proof (induction to c p res rule: emit.induct)
  case (1 to c p res)
  note pos = \<open>0 < to\<close> and run = \<open>emit to c p res = (p', res')\<close>
  show ?case
  proof (cases "to \<le> p")
    case False
    with run pos show ?thesis
      by (simp add: emit.simps [of to c p res])
  next
    case True
    let ?d = "(c div 2 ^ (p - to)) mod 2 ^ to"
    have "emit to c p res = emit to c (p - to) (res @ [?d])"
      using True pos by (subst emit.simps, unfold emit_digit) simp
    with run have e: "emit to c (p - to) (res @ [?d]) = (p', res')"
      by simp
    have ih: "p' < to \<and> length res' * to + p' = length (res @ [?d]) * to + (p - to)
         \<and> val (2 ^ to) res' * 2 ^ p' + c mod 2 ^ p'
             = val (2 ^ to) (res @ [?d]) * 2 ^ (p - to) + c mod 2 ^ (p - to)
         \<and> ((\<forall>d \<in> set (res @ [?d]). d < 2 ^ to) \<longrightarrow> (\<forall>d \<in> set res'. d < 2 ^ to))"
      using "1.IH" [unfolded emit_digit] True pos e by blast
    have pw: "(2::nat) ^ to * 2 ^ (p - to) = 2 ^ p"
      using True by (simp flip: power_add)
    have "val (2 ^ to) (res @ [?d]) * 2 ^ (p - to) + c mod 2 ^ (p - to)
          = val (2 ^ to) res * (2 ^ to * 2 ^ (p - to)) + (?d * 2 ^ (p - to) + c mod 2 ^ (p - to))"
      by (simp add: val_snoc algebra_simps)
    also have "\<dots> = val (2 ^ to) res * 2 ^ p + c mod 2 ^ p"
      using split_mod_pow [OF True, of c] pw by simp
    finally have v: "val (2 ^ to) (res @ [?d]) * 2 ^ (p - to) + c mod 2 ^ (p - to)
          = val (2 ^ to) res * 2 ^ p + c mod 2 ^ p" .
    have l: "length (res @ [?d]) * to + (p - to) = length res * to + p"
      using True by simp
    have d: "?d < 2 ^ to" by simp
    from ih v l d show ?thesis by auto
  qed
qed

lemma radix_step_inv:
  assumes inv: "radix_inv from to xs st" and n: "n < 2 ^ from"
    and to: "0 < to" and small: "from + to \<le> 33"
  shows "\<exists>st'. radix_step from to st n = Inr st' \<and> radix_inv from to (xs @ [n]) st'"
proof -
  obtain carry pos res where st: "st = (carry, pos, res)"
    by (cases st) auto
  from inv st have pos: "pos < to" and carry: "carry < 2 ^ pos"
    and v: "val (2 ^ to) res * 2 ^ pos + carry = val (2 ^ from) xs"
    and l: "length res * to + pos = length xs * from"
    and d: "\<forall>d \<in> set res. d < 2 ^ to"
    by (auto simp: radix_inv_def)
  let ?c = "carry * 2 ^ from + n"
  obtain p1 res1 where e: "emit to ?c (pos + from) res = (p1, res1)"
    by (cases "emit to ?c (pos + from) res") auto
  from emit_inv [OF to e] d
  have p1: "p1 < to" and l1: "length res1 * to + p1 = length res * to + (pos + from)"
    and v1: "val (2 ^ to) res1 * 2 ^ p1 + ?c mod 2 ^ p1
             = val (2 ^ to) res * 2 ^ (pos + from) + ?c mod 2 ^ (pos + from)"
    and d1: "\<forall>d \<in> set res1. d < 2 ^ to"
    by auto
  have "carry + 1 \<le> 2 ^ pos" using carry by simp
  then have "(carry + 1) * 2 ^ from \<le> 2 ^ pos * 2 ^ from"
    by (rule mult_le_mono1)
  then have "?c < 2 ^ (pos + from)"
    using n by (simp add: power_add algebra_simps)
  then have "?c mod 2 ^ (pos + from) = ?c" by simp
  with v1 have "val (2 ^ to) res1 * 2 ^ p1 + ?c mod 2 ^ p1
      = (val (2 ^ to) res * 2 ^ pos + carry) * 2 ^ from + n"
    by (simp add: power_add algebra_simps)
  with v have v2: "val (2 ^ to) res1 * 2 ^ p1 + ?c mod 2 ^ p1 = val (2 ^ from) (xs @ [n])"
    by (simp add: val_snoc)
  have ok: "\<not> 2 ^ from \<le> n" "\<not> 32 < pos + from"
    using n pos small by auto
  have "radix_step from to st n = Inr (?c mod 2 ^ p1, p1, res1)"
    using ok e by (simp add: radix_step_def st push_or_nat [OF n] and_mask_Suc)
  moreover have "radix_inv from to (xs @ [n]) (?c mod 2 ^ p1, p1, res1)"
    using p1 l1 l v2 d1 by (simp add: radix_inv_def algebra_simps)
  ultimately show ?thesis by blast
qed

lemma radix_loop_inv:
  assumes to: "0 < to" and small: "from + to \<le> 33"
  shows "radix_inv from to xs st \<Longrightarrow> \<forall>n \<in> set ns. n < 2 ^ from \<Longrightarrow>
         \<exists>st'. radix_loop from to st ns = Inr st' \<and> radix_inv from to (xs @ ns) st'"
proof (induction ns arbitrary: xs st)
  case Nil
  then show ?case by simp
next
  case (Cons n ns)
  from Cons.prems have "n < 2 ^ from" by simp
  from radix_step_inv [OF Cons.prems(1) this to small]
  obtain st1 where s: "radix_step from to st n = Inr st1"
    and i: "radix_inv from to (xs @ [n]) st1" by blast
  from Cons.IH [OF i] Cons.prems(2)
  obtain st' where "radix_loop from to st1 ns = Inr st'"
    and "radix_inv from to ((xs @ [n]) @ ns) st'" by auto
  with s show ?case by simp
qed

lemma radix_inv_init: "0 < to \<Longrightarrow> radix_inv from to [] (0, 0, [])"
  by (simp add: radix_inv_def val_Nil)

lemma radix_loop_run:
  assumes "0 < to" and "from + to \<le> 33" and "\<forall>n \<in> set data. n < 2 ^ from"
  shows "\<exists>st. radix_loop from to (0, 0, []) data = Inr st \<and> radix_inv from to data st"
  using radix_loop_inv [OF assms(1,2) radix_inv_init [OF assms(1)] assms(3)] by simp

lemma convertRadix2_exact:
  assumes g: "good_radix from to" and data: "\<forall>n \<in> set data. n < 2 ^ from"
    and ex: "(length data * from) mod to = 0"
  shows "\<exists>res. convertRadix2 data from to padding = Inr res
           \<and> val (2 ^ to) res = val (2 ^ from) data
           \<and> length res * to = length data * from
           \<and> (\<forall>d \<in> set res. d < 2 ^ to)"
proof -
  from g have to: "0 < to" and fr: "0 < from" and small: "from + to \<le> 33"
    and c: "radix2carry from to \<le> 32"
    by (auto simp: good_radix_def)
  from radix_loop_run [OF to small data]
  obtain carry pos res where run: "radix_loop from to (0, 0, []) data = Inr (carry, pos, res)"
    and inv: "radix_inv from to data (carry, pos, res)"
    by (metis prod_cases3)
  from inv have pos: "pos < to" and carry: "carry < 2 ^ pos"
    and v: "val (2 ^ to) res * 2 ^ pos + carry = val (2 ^ from) data"
    and l: "length res * to + pos = length data * from"
    and d: "\<forall>d \<in> set res. d < 2 ^ to"
    by (auto simp: radix_inv_def)
  have "pos mod to = 0"
    using ex l by (metis mod_mult_self4 mult.commute)
  with pos have p0: "pos = 0" by simp
  with carry have c0: "carry = 0" by simp
  have "convertRadix2 data from to padding = Inr res"
    using to fr small c run p0 c0 by (simp add: convertRadix2_def)
  with v l d p0 c0 show ?thesis by simp
qed

lemma convertRadix2_padding:
  assumes g: "good_radix from to" and data: "\<forall>n \<in> set data. n < 2 ^ from"
  shows "\<exists>res. convertRadix2 data from to True = Inr res \<and> (\<forall>d \<in> set res. d < 2 ^ to)"
proof -
  from g have to: "0 < to" and fr: "0 < from" and small: "from + to \<le> 33"
    and c: "radix2carry from to \<le> 32"
    by (auto simp: good_radix_def)
  from radix_loop_run [OF to small data]
  obtain carry pos res where run: "radix_loop from to (0, 0, []) data = Inr (carry, pos, res)"
    and inv: "radix_inv from to data (carry, pos, res)"
    by (metis prod_cases3)
  from inv have d: "\<forall>d \<in> set res. d < 2 ^ to"
    by (auto simp: radix_inv_def)
  have m: "push_bit (to - pos) carry AND (2 ^ to - 1) < 2 ^ to"
    unfolding and_mask_nat by simp
  show ?thesis
    using to fr small c run d m [unfolded and_mask_nat]
    by (auto simp: convertRadix2_def Let_def and_mask_Suc)
qed

lemma good_radix_used:
  "good_radix 8 4" "good_radix 4 8" "good_radix 8 5" "good_radix 5 8"
  by (simp_all add: good_radix_def radix2carry_def)

subsection \<open>Values of digit lists\<close>

text \<open>Two lists of digits of one length and one value are the same list.\<close>

lemma val_append: "val b (xs @ ys) = val b xs * b ^ length ys + val b ys"
proof (induction ys rule: rev_induct)
  case Nil
  show ?case by (simp add: val_Nil)
next
  case (snoc y ys)
  have "val b (xs @ ys @ [y]) = val b ((xs @ ys) @ [y])" by simp
  also have "\<dots> = val b (xs @ ys) * b + y" by (rule val_snoc)
  finally show ?case using snoc by (simp add: val_snoc algebra_simps)
qed

lemma val_Cons: "val b (x # xs) = x * b ^ length xs + val b xs"
  using val_append [of b "[x]" xs] val_snoc [of b "[]" x] by (simp add: val_Nil)

lemma val_less: "\<forall>d \<in> set ds. d < b \<Longrightarrow> val b ds < b ^ length ds"
proof (induction ds rule: rev_induct)
  case Nil
  show ?case by (simp add: val_Nil)
next
  case (snoc d ds)
  then have "val b ds + 1 \<le> b ^ length ds" and "d < b" by auto
  then have "(val b ds + 1) * b \<le> b ^ length ds * b"
    by (intro mult_le_mono1)
  with \<open>d < b\<close> show ?case by (simp add: val_snoc algebra_simps)
qed

lemma val_inj:
  "length xs = length ys \<Longrightarrow> \<forall>d \<in> set xs. d < b \<Longrightarrow> \<forall>d \<in> set ys. d < b \<Longrightarrow>
   val b xs = val b ys \<Longrightarrow> xs = ys"
proof (induction xs arbitrary: ys rule: rev_induct)
  case Nil
  then show ?case by simp
next
  case (snoc x xs)
  from snoc.prems(1) obtain y ys' where ys: "ys = ys' @ [y]"
    by (cases ys rule: rev_cases) auto
  from snoc.prems ys have x: "x < b" and y: "y < b" by auto
  from snoc.prems(4) ys have e: "val b xs * b + x = val b ys' * b + y"
    by (simp add: val_snoc)
  from e x y have "(val b xs * b + x) mod b = (val b ys' * b + y) mod b" by simp
  with x y have xy: "x = y" by simp
  from e x y have "(val b xs * b + x) div b = (val b ys' * b + y) div b" by simp
  with x y have "val b xs = val b ys'" by simp
  with snoc.IH [of ys'] snoc.prems ys have "xs = ys'" by simp
  with xy ys show ?case by simp
qed

lemma val_replicate_0: "val b (replicate k 0 @ ds) = val b ds"
proof (induction k)
  case 0
  show ?case by simp
next
  case (Suc k)
  have "val b (replicate (Suc k) 0 @ ds) = val b (0 # (replicate k 0 @ ds))" by simp
  also have "\<dots> = val b (replicate k 0 @ ds)" by (simp add: val_Cons)
  finally show ?case using Suc by simp
qed

subsection \<open>Mapping over a list with errors, alphabets\<close>

lemma map_result_Inr:
  "\<forall>x \<in> set xs. f x = Inr (g x) \<Longrightarrow> map_result f xs = Inr (map g xs)"
  by (induction xs) auto

lemma map_result_list_all2:
  "(map_result f xs = Inr ys) = list_all2 (\<lambda>x y. f x = Inr y) xs ys"
proof (induction xs arbitrary: ys)
  case Nil
  show ?case by auto
next
  case (Cons x xs)
  have ih: "list_all2 (\<lambda>x y. f x = Inr y) xs zs \<Longrightarrow> map_result f xs = Inr zs" for zs
    using Cons.IH by simp
  show ?case
    by (auto simp: list_all2_Cons1 Cons.IH dest!: ih split: sum.splits)
qed

lemma map_result_Inr_iff:
  "(map_result f xs = Inr ys) = (length ys = length xs \<and> (\<forall>i < length xs. f (xs ! i) = Inr (ys ! i)))"
  unfolding map_result_list_all2 list_all2_conv_all_nth by auto

lemma map_result_is_Inr:
  "(\<exists>ys. map_result f xs = Inr ys) = (\<forall>x \<in> set xs. \<exists>y. f x = Inr y)"
  by (induction xs) (auto split: sum.splits)

lemma index_from_notin: "c \<notin> set s \<Longrightarrow> index_from i s c = - 1"
  by (induction s arbitrary: i) auto

lemma index_from_in:
  "c \<in> set s \<Longrightarrow> \<exists>k < length s. s ! k = c \<and> index_from i s c = int (i + k)"
proof (induction s arbitrary: i)
  case Nil
  then show ?case by simp
next
  case (Cons x s)
  show ?case
  proof (cases "x = c")
    case True
    then show ?thesis by (intro exI [of _ 0]) simp
  next
    case False
    with Cons.prems have "c \<in> set s" by simp
    from Cons.IH [OF this, of "Suc i"]
    obtain k where "k < length s" "s ! k = c" "index_from (Suc i) s c = int (Suc i + k)"
      by blast
    with False show ?thesis by (intro exI [of _ "Suc k"]) simp
  qed
qed

lemma index_from_nth:
  "distinct s \<Longrightarrow> k < length s \<Longrightarrow> index_from i s (s ! k) = int (i + k)"
proof (induction s arbitrary: i k)
  case Nil
  then show ?case by simp
next
  case (Cons x s)
  show ?case
  proof (cases k)
    case 0
    then show ?thesis by simp
  next
    case (Suc j)
    with Cons.prems have "j < length s" "distinct s" "s ! j \<noteq> x"
      by (auto simp: in_set_conv_nth)
    with Cons.IH [of j "Suc i"] Suc show ?thesis by simp
  qed
qed

lemma indexOf_nth: "distinct s \<Longrightarrow> k < length s \<Longrightarrow> indexOf s (s ! k) = int k"
  using index_from_nth [of s k 0] by (simp add: indexOf_def)

lemma indexOf_notin: "c \<notin> set s \<Longrightarrow> indexOf s c = - 1"
  by (simp add: indexOf_def index_from_notin)

lemma indexOf_in: "c \<in> set s \<Longrightarrow> \<exists>k < length s. s ! k = c \<and> indexOf s c = int k"
  using index_from_in [of c s 0] by (simp add: indexOf_def)

lemma indexOf_neg_iff: "(indexOf s c = - 1) = (c \<notin> set s)"
  using indexOf_in [of c s] indexOf_notin [of c s] by fastforce

lemma indexOf_less_0_iff: "(indexOf s c < 0) = (c \<notin> set s)"
  using indexOf_in [of c s] indexOf_notin [of c s] by fastforce

lemma alphabet_encode_Inr:
  "\<forall>d \<in> set ds. d < length alphabet \<Longrightarrow>
   alphabet_encode alphabet ds = Inr (map ((!) alphabet) ds)"
  unfolding alphabet_encode_def by (rule map_result_Inr) auto

lemma alphabet_decode_encode:
  assumes "distinct alphabet" and "\<forall>d \<in> set ds. d < length alphabet"
  shows "alphabet_decode alphabet (map ((!) alphabet) ds) = Inr ds"
proof -
  have "alphabet_decode alphabet (map ((!) alphabet) ds)
        = Inr (map (\<lambda>c. nat (indexOf alphabet c)) (map ((!) alphabet) ds))"
    unfolding alphabet_decode_def
    by (rule map_result_Inr) (use assms in \<open>auto simp: indexOf_nth\<close>)
  also have "map (\<lambda>c. nat (indexOf alphabet c)) (map ((!) alphabet) ds) = ds"
    using assms by (simp add: map_idI indexOf_nth)
  finally show ?thesis .
qed

lemma alphabet_decode_Inr:
  assumes "alphabet_decode alphabet s = Inr ds"
  shows "s = map ((!) alphabet) ds \<and> (\<forall>d \<in> set ds. d < length alphabet)"
proof -
  from assms have len: "length ds = length s"
    and each: "\<forall>i < length s. indexOf alphabet (s ! i) \<noteq> - 1
                 \<and> ds ! i = nat (indexOf alphabet (s ! i))"
    unfolding alphabet_decode_def map_result_Inr_iff by (auto split: if_splits)
  have nth: "alphabet ! (ds ! i) = s ! i \<and> ds ! i < length alphabet" if "i < length s" for i
  proof -
    from each that have "s ! i \<in> set alphabet" and d: "ds ! i = nat (indexOf alphabet (s ! i))"
      by (auto simp: indexOf_neg_iff)
    from indexOf_in [OF this(1)] d show ?thesis by auto
  qed
  have "s = map ((!) alphabet) ds"
    using len nth by (intro nth_equalityI) auto
  moreover have "\<forall>d \<in> set ds. d < length alphabet"
    using len nth by (auto simp: in_set_conv_nth)
  ultimately show ?thesis by blast
qed

lemma alphabet_decode_is_Inr:
  "(\<exists>ds. alphabet_decode alphabet s = Inr ds) = (set s \<subseteq> set alphabet)"
  unfolding alphabet_decode_def map_result_is_Inr
  by (auto simp: indexOf_neg_iff)

subsection \<open>Hexadecimal\<close>

text \<open>
  \<open>hex.encode\<close> never fails and gives two digits for each byte (\<open>hex_string\<close>);
  \<open>hex.decode\<close> succeeds exactly on the strings of even length whose characters, in
  lower case, are hexadecimal digits, and is the inverse of \<open>hex.encode\<close>.
\<close>

lemma hex_alphabet_facts: "length hex_alphabet = 16" "distinct hex_alphabet"
  by (simp_all add: hex_alphabet_def)

lemma length_hex_digits: "length (hex_digits bs) = 2 * length bs"
  by (induction bs) (simp_all add: hex_digits_def)

lemma unat_byte_less: "unat (b :: byte) < 256"
  using unsigned_less [of b] by simp

lemma hex_digits_less: "\<forall>d \<in> set (hex_digits bs). d < 16"
proof -
  have "unat b div 16 < 16" for b :: byte
    using unat_byte_less [of b] by simp
  then show ?thesis by (auto simp: hex_digits_def)
qed

lemma hex_digits_append: "hex_digits (xs @ ys) = hex_digits xs @ hex_digits ys"
  by (simp add: hex_digits_def)

lemma val_hex_digits: "val 16 (hex_digits bs) = val 256 (map unat bs)"
proof (induction bs)
  case Nil
  show ?case by (simp add: hex_digits_def val_Nil)
next
  case (Cons b bs)
  have p: "(16::nat) ^ (2 * length bs) = 256 ^ length bs"
    by (simp add: power_mult)
  have g: "q * (16 * m) + r * m = (q * 16 + r) * m" for q r m :: nat
    by (simp add: algebra_simps)
  have h: "hex_digits (b # bs) = unat b div 16 # unat b mod 16 # hex_digits bs"
    by (simp add: hex_digits_def)
  have "val 16 (hex_digits (b # bs))
      = unat b div 16 * (16 * 16 ^ (2 * length bs)) + unat b mod 16 * 16 ^ (2 * length bs)
        + val 16 (hex_digits bs)"
    unfolding h val_Cons by (simp add: length_hex_digits)
  also have "\<dots> = (unat b div 16 * 16 + unat b mod 16) * 256 ^ length bs
        + val 16 (hex_digits bs)"
    unfolding p by (rule arg_cong [where f = "\<lambda>x. x + _"]) (rule g)
  finally have "val 16 (hex_digits (b # bs))
      = (unat b div 16 * 16 + unat b mod 16) * 256 ^ length bs + val 16 (hex_digits bs)" .
  moreover have "unat b div 16 * 16 + unat b mod 16 = unat b" by simp
  ultimately have "val 16 (hex_digits (b # bs)) = unat b * 256 ^ length bs + val 16 (hex_digits bs)"
    by (simp only:)
  with Cons show ?case by (simp add: val_Cons)
qed

lemma bytes_of_nats: "\<forall>n \<in> set ns. n < 256 \<Longrightarrow> map unat (map of_nat ns :: bytes) = ns"
  by (induction ns) (simp_all add: unat_of_nat)

lemma nats_of_bytes: "map of_nat (map unat (bs :: bytes)) = bs"
  by (induction bs) simp_all

lemma map_unat_inj: "map unat (xs :: bytes) = map unat ys \<Longrightarrow> xs = ys"
  using nats_of_bytes [of xs] nats_of_bytes [of ys] by simp

lemma radix2_encode_4: "radix2_encode 4 bs = Inr (hex_digits bs)"
proof -
  have "\<forall>n \<in> set (map unat bs). n < 2 ^ 8"
    using unat_byte_less by auto
  moreover have "(length (map unat bs) * 8) mod 4 = 0" by simp
  ultimately obtain res where r: "convertRadix2 (map unat bs) 8 4 True = Inr res"
    and v: "val (2 ^ 4) res = val (2 ^ 8) (map unat bs)"
    and l: "length res * 4 = length (map unat bs) * 8"
    and d: "\<forall>d \<in> set res. d < 2 ^ 4"
    using convertRadix2_exact [OF good_radix_used(1), of "map unat bs" True] by auto
  have "res = hex_digits bs"
  proof (rule val_inj)
    show "length res = length (hex_digits bs)"
      using l by (simp add: length_hex_digits)
    show "\<forall>d \<in> set res. d < 16" using d by simp
    show "\<forall>d \<in> set (hex_digits bs). d < 16" by (rule hex_digits_less)
    show "val 16 res = val 16 (hex_digits bs)"
      using v by (simp add: val_hex_digits)
  qed
  with r show ?thesis by (simp add: radix2_encode_def)
qed

lemma hex_encode_eq: "hex_encode bs = Inr (hex_string bs)"
proof -
  have "\<forall>d \<in> set (hex_digits bs). d < length hex_alphabet"
    unfolding hex_alphabet_facts by (rule hex_digits_less)
  then have "alphabet_encode hex_alphabet (hex_digits bs) = Inr (hex_string bs)"
    unfolding hex_string_def by (rule alphabet_encode_Inr)
  then show ?thesis
    by (simp add: hex_encode_def radix2_encode_4 and_then_def)
qed

lemma radix2_decode_4:
  assumes e: "even (length ds)" and d: "\<forall>d \<in> set ds. d < 16"
  shows "\<exists>bs. radix2_decode 4 ds = Inr bs \<and> hex_digits bs = ds"
proof -
  from e have ex: "(length ds * 4) mod 8 = 0" by (auto elim!: evenE)
  have dd: "\<forall>n \<in> set ds. n < 2 ^ 4" using d by simp
  from convertRadix2_exact [OF good_radix_used(2) dd ex, of False]
  obtain res where r: "convertRadix2 ds 4 8 False = Inr res"
    and v: "val (2 ^ 8) res = val (2 ^ 4) ds"
    and l: "length res * 8 = length ds * 4"
    and b: "\<forall>d \<in> set res. d < 2 ^ 8"
    by auto
  let ?bs = "map of_nat res :: bytes"
  have u: "map unat ?bs = res"
    by (rule bytes_of_nats) (use b in simp)
  have "hex_digits ?bs = ds"
  proof (rule val_inj)
    show "length (hex_digits ?bs) = length ds"
      using l by (simp add: length_hex_digits)
    show "\<forall>d \<in> set (hex_digits ?bs). d < 16" by (rule hex_digits_less)
    show "\<forall>d \<in> set ds. d < 16" by (rule d)
    show "val 16 (hex_digits ?bs) = val 16 ds"
      unfolding val_hex_digits u using v by simp
  qed
  with r show ?thesis by (simp add: radix2_decode_def and_then_def)
qed

lemma lower_char_hex: "c \<in> set hex_alphabet \<Longrightarrow> lower_char c = c"
  by (auto simp: lower_char_def hex_alphabet_def)

lemma hex_string_chars: "set (hex_string bs) \<subseteq> set hex_alphabet"
proof -
  have "hex_alphabet ! d \<in> set hex_alphabet" if "d < 16" for d
    by (rule nth_mem) (use that in \<open>simp add: hex_alphabet_facts\<close>)
  then show ?thesis
    using hex_digits_less unfolding hex_string_def by auto
qed

lemma toLowerCase_hex_string: "toLowerCase (hex_string bs) = hex_string bs"
  unfolding toLowerCase_def
  by (rule map_idI) (use hex_string_chars lower_char_hex in blast)

lemma length_hex_string: "length (hex_string bs) = 2 * length bs"
  by (simp add: hex_string_def length_hex_digits)

lemma hex_string_append: "hex_string (xs @ ys) = hex_string xs @ hex_string ys"
  by (simp add: hex_string_def hex_digits_append)

lemma length_toLowerCase: "length (toLowerCase s) = length s"
  by (simp add: toLowerCase_def)

lemma hex_decode_Inr:
  assumes "hex_decode s = Inr bs"
  shows "toLowerCase s = hex_string bs"
proof -
  from assms have e: "even (length s)"
    by (auto simp: hex_decode_def split: if_splits)
  from assms e obtain ds where a: "alphabet_decode hex_alphabet (toLowerCase s) = Inr ds"
    and r: "radix2_decode 4 ds = Inr bs"
    by (auto simp: hex_decode_def and_then_def split: sum.splits)
  from alphabet_decode_Inr [OF a]
  have s: "toLowerCase s = map ((!) hex_alphabet) ds" and d: "\<forall>d \<in> set ds. d < 16"
    by (auto simp: hex_alphabet_facts)
  from s have "length ds = length s"
    by (metis length_map length_toLowerCase)
  with e have "even (length ds)" by simp
  from radix2_decode_4 [OF this d] r have "hex_digits bs = ds" by auto
  with s show ?thesis by (simp add: hex_string_def)
qed

lemma hex_decode_is_Inr:
  "(\<exists>bs. hex_decode s = Inr bs)
     = (even (length s) \<and> set (toLowerCase s) \<subseteq> set hex_alphabet)"
proof
  assume "\<exists>bs. hex_decode s = Inr bs"
  then obtain bs where b: "hex_decode s = Inr bs" ..
  then have "even (length s)"
    by (auto simp: hex_decode_def split: if_splits)
  moreover from hex_decode_Inr [OF b] have "set (toLowerCase s) \<subseteq> set hex_alphabet"
    using hex_string_chars by simp
  ultimately show "even (length s) \<and> set (toLowerCase s) \<subseteq> set hex_alphabet" ..
next
  assume a: "even (length s) \<and> set (toLowerCase s) \<subseteq> set hex_alphabet"
  then obtain ds where d: "alphabet_decode hex_alphabet (toLowerCase s) = Inr ds"
    using alphabet_decode_is_Inr [of hex_alphabet "toLowerCase s"] by blast
  from alphabet_decode_Inr [OF d]
  have s: "toLowerCase s = map ((!) hex_alphabet) ds" and l: "\<forall>d \<in> set ds. d < 16"
    by (auto simp: hex_alphabet_facts)
  from s have "length ds = length s"
    by (metis length_map length_toLowerCase)
  with a have "even (length ds)" by simp
  from radix2_decode_4 [OF this l] obtain bs where "radix2_decode 4 ds = Inr bs" by blast
  with a d show "\<exists>bs. hex_decode s = Inr bs"
    by (simp add: hex_decode_def and_then_def)
qed

lemma hex_digits_inj: "hex_digits cs = hex_digits bs \<Longrightarrow> cs = bs"
proof -
  assume e: "hex_digits cs = hex_digits bs"
  then have "val 256 (map unat cs) = val 256 (map unat bs)"
    using val_hex_digits [of cs] val_hex_digits [of bs] by simp
  moreover from e have "length cs = length bs"
    using length_hex_digits [of cs] length_hex_digits [of bs] by simp
  ultimately have "map unat cs = map unat bs"
    by (intro val_inj [of _ _ 256]) (use unat_byte_less in auto)
  then show "cs = bs" by (rule map_unat_inj)
qed

lemma hex_string_inj: "hex_string cs = hex_string bs \<Longrightarrow> cs = bs"
proof -
  have dec: "alphabet_decode hex_alphabet (hex_string xs) = Inr (hex_digits xs)" for xs
    unfolding hex_string_def
    by (rule alphabet_decode_encode) (use hex_digits_less in \<open>auto simp: hex_alphabet_facts\<close>)
  assume "hex_string cs = hex_string bs"
  then have "hex_digits cs = hex_digits bs"
    using dec [of cs] dec [of bs] by simp
  then show "cs = bs" by (rule hex_digits_inj)
qed

lemma hex_decode_hex_string: "hex_decode (hex_string bs) = Inr bs"
proof -
  have "even (length (hex_string bs))" by (simp add: length_hex_string)
  moreover have "set (toLowerCase (hex_string bs)) \<subseteq> set hex_alphabet"
    using hex_string_chars by (simp add: toLowerCase_hex_string)
  ultimately obtain cs where c: "hex_decode (hex_string bs) = Inr cs"
    using hex_decode_is_Inr [of "hex_string bs"] by blast
  from hex_decode_Inr [OF c] have "hex_string cs = hex_string bs"
    by (simp add: toLowerCase_hex_string)
  then have "cs = bs" by (rule hex_string_inj)
  with c show ?thesis by simp
qed

subsection \<open>Base 32\<close>

text \<open>
  \<open>base32.encode\<close> never fails; on a number of bytes that is a multiple of 5 it adds
  no padding, and \<open>base32.decode\<close> of its output, in either case of the letters as
  \<open>parseAddress\<close> restores it, gives the bytes back.
\<close>

lemma base32_alphabet_facts:
  "length base32_alphabet = 32" "distinct base32_alphabet" "CHR ''='' \<notin> set base32_alphabet"
  by (simp_all add: base32_alphabet_def)

lemma upper_lower_base32: "c \<in> set base32_alphabet \<Longrightarrow> upper_char (lower_char c) = c"
  by (auto simp: base32_alphabet_def upper_char_def lower_char_def char_of_eq_iff)

lemma lower_char_idem: "lower_char (lower_char c) = lower_char c"
  by (simp add: lower_char_def Let_def)

lemma toLowerCase_idem: "toLowerCase (toLowerCase s) = toLowerCase s"
  by (simp add: toLowerCase_def lower_char_idem)

lemma radix2_encode_total:
  assumes "good_radix 8 bits"
  shows "\<exists>ds. radix2_encode bits bs = Inr ds \<and> (\<forall>d \<in> set ds. d < 2 ^ bits)"
proof -
  have "\<forall>n \<in> set (map unat bs). n < 2 ^ 8"
    using unat_byte_less by auto
  from convertRadix2_padding [OF assms this] show ?thesis
    by (simp add: radix2_encode_def)
qed

lemma padding_encode_id: "(length cs * bits) mod 8 = 0 \<Longrightarrow> padding_encode bits cs = cs"
  by (subst padding_encode.simps) simp

lemma base32_encode_total: "\<exists>s. base32_encode bs = Inr s"
proof -
  from radix2_encode_total [OF good_radix_used(3), of bs]
  obtain ds where r: "radix2_encode 5 bs = Inr ds" and d: "\<forall>d \<in> set ds. d < 2 ^ 5"
    by blast
  from d have "\<forall>d \<in> set ds. d < length base32_alphabet"
    by (simp add: base32_alphabet_facts)
  from alphabet_encode_Inr [OF this] r show ?thesis
    by (simp add: base32_encode_def and_then_def)
qed

lemma base32_encode_exact:
  assumes "length bs mod 5 = 0"
  shows "\<exists>ds. base32_encode bs = Inr (map ((!) base32_alphabet) ds)
           \<and> val 32 ds = val 256 (map unat bs)
           \<and> length ds * 5 = length bs * 8
           \<and> (\<forall>d \<in> set ds. d < 32)"
proof -
  have data: "\<forall>n \<in> set (map unat bs). n < 2 ^ 8"
    using unat_byte_less by auto
  have "5 dvd length bs" using assms by (simp add: mod_eq_0_iff_dvd)
  then have "5 dvd length bs * 8" by (rule dvd_mult2)
  then have ex: "(length (map unat bs) * 8) mod 5 = 0" by (simp add: mod_eq_0_iff_dvd)
  from convertRadix2_exact [OF good_radix_used(3) data ex, of True]
  obtain ds where r: "convertRadix2 (map unat bs) 8 5 True = Inr ds"
    and v: "val (2 ^ 5) ds = val (2 ^ 8) (map unat bs)"
    and l: "length ds * 5 = length (map unat bs) * 8"
    and d: "\<forall>d \<in> set ds. d < 2 ^ 5"
    by auto
  from d have "\<forall>d \<in> set ds. d < length base32_alphabet"
    by (simp add: base32_alphabet_facts)
  from alphabet_encode_Inr [OF this]
  have a: "alphabet_encode base32_alphabet ds = Inr (map ((!) base32_alphabet) ds)" .
  have "(length (map ((!) base32_alphabet) ds) * 5) mod 8 = 0"
    using l by simp
  from padding_encode_id [OF this] r a
  have "base32_encode bs = Inr (map ((!) base32_alphabet) ds)"
    by (simp add: base32_encode_def radix2_encode_def and_then_def)
  with v l d show ?thesis by auto
qed

lemma strip_padding_id:
  "(cs \<noteq> [] \<longrightarrow> last cs \<noteq> CHR ''='') \<Longrightarrow> strip_padding bits cs (length cs) = Inr cs"
  by (cases cs rule: rev_cases) simp_all

lemma base32_decode_digits:
  assumes w: "(length ds * 5) mod 8 = 0" and d: "\<forall>d \<in> set ds. d < 32"
  shows "\<exists>res. base32_decode (map ((!) base32_alphabet) ds) = Inr (map of_nat res)
           \<and> val 256 res = val 32 ds
           \<and> length res * 8 = length ds * 5
           \<and> (\<forall>n \<in> set res. n < 256)"
proof -
  let ?cs = "map ((!) base32_alphabet) ds"
  have mem: "set ?cs \<subseteq> set base32_alphabet"
    using d by (auto simp: base32_alphabet_facts)
  have "?cs \<noteq> [] \<longrightarrow> last ?cs \<noteq> CHR ''=''"
  proof (intro impI notI)
    assume "?cs \<noteq> []" and e: "last ?cs = CHR ''=''"
    then have "last ?cs \<in> set ?cs" by (intro last_in_set)
    with e mem have "CHR ''='' \<in> set base32_alphabet" by auto
    with base32_alphabet_facts(3) show False by simp
  qed
  from strip_padding_id [OF this, of 5] w
  have p: "padding_decode 5 ?cs = Inr ?cs"
    by (simp add: padding_decode_def)
  have a: "alphabet_decode base32_alphabet ?cs = Inr ds"
    by (rule alphabet_decode_encode) (use d in \<open>simp_all add: base32_alphabet_facts\<close>)
  have dd: "\<forall>n \<in> set ds. n < 2 ^ 5" using d by simp
  from convertRadix2_exact [OF good_radix_used(4) dd w, of False]
  obtain res where r: "convertRadix2 ds 5 8 False = Inr res"
    and v: "val (2 ^ 8) res = val (2 ^ 5) ds"
    and l: "length res * 8 = length ds * 5"
    and b: "\<forall>d \<in> set res. d < 2 ^ 8"
    by auto
  have "base32_decode ?cs = Inr (map of_nat res)"
    using p a r by (simp add: base32_decode_def radix2_decode_def and_then_def)
  with v l b show ?thesis by auto
qed

lemma base32_roundtrip:
  assumes len: "length bs mod 5 = 0" and enc: "base32_encode bs = Inr s"
  shows "base32_decode (toUpperCase (toLowerCase s)) = Inr bs"
proof -
  from base32_encode_exact [OF len] enc
  obtain ds where s: "s = map ((!) base32_alphabet) ds"
    and v: "val 32 ds = val 256 (map unat bs)"
    and l: "length ds * 5 = length bs * 8"
    and d: "\<forall>d \<in> set ds. d < 32"
    by auto
  have "set s \<subseteq> set base32_alphabet"
    using d unfolding s by (auto simp: base32_alphabet_facts)
  then have up: "toUpperCase (toLowerCase s) = s"
    unfolding toUpperCase_def toLowerCase_def map_map
    by (intro map_idI) (auto simp: upper_lower_base32)
  have w: "(length ds * 5) mod 8 = 0" using l by simp
  from base32_decode_digits [OF w d]
  obtain res where dec: "base32_decode s = Inr (map of_nat res)"
    and v2: "val 256 res = val 32 ds"
    and l2: "length res * 8 = length ds * 5"
    and b: "\<forall>n \<in> set res. n < 256"
    unfolding s by blast
  have "res = map unat bs"
  proof (rule val_inj)
    show "length res = length (map unat bs)" using l l2 by simp
    show "\<forall>d \<in> set res. d < 256" by (rule b)
    show "\<forall>d \<in> set (map unat bs). d < 256" using unat_byte_less by auto
    show "val 256 res = val 256 (map unat bs)" using v v2 by simp
  qed
  then have "map of_nat res = bs" by (simp only: nats_of_bytes)
  with dec up show ?thesis by simp
qed

subsection \<open>BigInt: strings in base 36 and base 16\<close>

text \<open>
  \<open>toString\<close> gives digits of the alphabet with the value of the number; the loop of
  the \<open>k\<close> branch reads them back; the value of 40 bytes, in hexadecimal and padded to
  80 characters, is the hexadecimal form of the bytes.
\<close>

lemma b36_facts: "length b36 = 36" "distinct b36" "b36 ! 0 = CHR ''0''"
  by (simp_all add: b36_def)

lemma lower_char_b36: "c \<in> set b36 \<Longrightarrow> lower_char c = c"
  by (auto simp: b36_def lower_char_def)

lemma b36_hex_nth: "d < 16 \<Longrightarrow> b36 ! d = hex_alphabet ! d"
proof -
  have "\<forall>d < 16. b36 ! d = hex_alphabet ! d"
    by (simp add: b36_def hex_alphabet_def All_less_Suc2 eval_nat_numeral)
  then show "d < 16 \<Longrightarrow> b36 ! d = hex_alphabet ! d" by simp
qed

lemma val_single: "val b [d] = d"
  by (simp add: val_Cons val_Nil)

lemma nat_toString_digits:
  "2 \<le> r \<Longrightarrow>
   \<exists>ds. nat_toString r n = map ((!) b36) ds \<and> ds \<noteq> [] \<and> (\<forall>d \<in> set ds. d < r)
      \<and> val r ds = n \<and> (\<forall>k. 0 < k \<longrightarrow> n < r ^ k \<longrightarrow> length ds \<le> k)"
proof (induction r n rule: nat_toString.induct)
  case (1 r n)
  note r = \<open>2 \<le> r\<close>
  show ?case
  proof (cases "n < r")
    case True
    have "nat_toString r n = map ((!) b36) [n]"
      using True by (subst nat_toString.simps) simp
    moreover have "\<forall>k. 0 < k \<longrightarrow> n < r ^ k \<longrightarrow> length [n] \<le> k" by auto
    ultimately show ?thesis
      using True val_single [of r n] by (intro exI [of _ "[n]"]) simp
  next
    case False
    with r have "\<not> (r < 2 \<or> n < r)" by simp
    from "1.IH" [OF this r]
    obtain ds where s: "nat_toString r (n div r) = map ((!) b36) ds" and ne: "ds \<noteq> []"
      and d: "\<forall>d \<in> set ds. d < r" and v: "val r ds = n div r"
      and l: "\<forall>k. 0 < k \<longrightarrow> n div r < r ^ k \<longrightarrow> length ds \<le> k"
      by blast
    let ?ds = "ds @ [n mod r]"
    have "nat_toString r n = nat_toString r (n div r) @ [b36 ! (n mod r)]"
      using False r by (subst nat_toString.simps) simp
    with s have 1: "nat_toString r n = map ((!) b36) ?ds" by simp
    have 2: "\<forall>d \<in> set ?ds. d < r" using d r by simp
    have 3: "val r ?ds = n" using v by (simp add: val_snoc)
    have 4: "length ?ds \<le> k" if k: "0 < k" "n < r ^ k" for k
    proof -
      from k False have "k \<noteq> 1" by auto
      with k obtain j where j: "k = Suc j" "0 < j" by (cases k) auto
      from k j have "n < r ^ j * r" by (simp add: mult.commute)
      then have "n div r < r ^ j"
        using r by (simp add: less_mult_imp_div_less)
      with l j have "length ds \<le> j" by simp
      with j show ?thesis by simp
    qed
    from 1 2 3 4 show ?thesis by (intro exI [of _ ?ds]) simp
  qed
qed

lemma foldl_digits:
  assumes "distinct alphabet" and "\<forall>c \<in> set alphabet. g c = c"
  shows "\<forall>d \<in> set ds. d < length alphabet \<Longrightarrow>
    foldl (\<lambda>a c. a * int b + indexOf alphabet (g c)) 0 (map ((!) alphabet) ds) = int (val b ds)"
proof (induction ds rule: rev_induct)
  case Nil
  show ?case by (simp add: val_Nil)
next
  case (snoc d ds)
  then have d: "d < length alphabet" by simp
  then have "alphabet ! d \<in> set alphabet" by simp
  with assms(2) have "g (alphabet ! d) = alphabet ! d" by simp
  with indexOf_nth [OF assms(1) d] have "indexOf alphabet (g (alphabet ! d)) = int d" by simp
  with snoc show ?case by (simp add: val_snoc)
qed

lemma base36_value_digits:
  assumes "\<forall>d \<in> set ds. d < 36"
  shows "base36_value (c # map ((!) b36) ds) = int (val 36 ds)"
proof -
  have "foldl (\<lambda>a c. a * int 36 + indexOf b36 (id c)) 0 (map ((!) b36) ds) = int (val 36 ds)"
    by (rule foldl_digits) (use assms in \<open>simp_all add: b36_facts\<close>)
  then show ?thesis by (simp add: base36_value_def)
qed

lemma BigInt_0x_hex_string:
  assumes "bs \<noteq> []"
  shows "BigInt_0x (hex_string bs) = Inr (int (val 256 (map unat bs)))"
proof -
  have "foldl (\<lambda>a c. a * int 16 + indexOf hex_alphabet (lower_char c)) 0
          (map ((!) hex_alphabet) (hex_digits bs)) = int (val 16 (hex_digits bs))"
    by (rule foldl_digits)
      (use hex_digits_less lower_char_hex in \<open>auto simp: hex_alphabet_facts\<close>)
  then have f: "foldl (\<lambda>a c. a * 16 + indexOf hex_alphabet (lower_char c)) 0 (hex_string bs)
      = int (val 256 (map unat bs))"
    by (simp add: hex_string_def val_hex_digits)
  have "\<not> indexOf hex_alphabet (lower_char c) < 0" if "c \<in> set (hex_string bs)" for c
    using that hex_string_chars [of bs] lower_char_hex [of c]
    by (auto simp: indexOf_less_0_iff)
  moreover have "hex_string bs \<noteq> []"
    using assms length_hex_string [of bs] by auto
  ultimately show ?thesis
    using f by (auto simp: BigInt_0x_def)
qed

lemma toString_nonneg: "toString (int n) r = nat_toString r n"
  by (simp add: toString_def)

lemma hexKey_of_value:
  assumes "length bs = 40"
  shows "padStart (toString (int (val 256 (map unat bs))) 16) 80 (CHR ''0'') = hex_string bs"
proof -
  let ?N = "val 256 (map unat bs)"
  have "?N < 256 ^ length (map unat bs)"
    by (rule val_less) (use unat_byte_less in auto)
  also have "(256::nat) ^ length (map unat bs) = 16 ^ 80"
    using assms by simp
  finally have N: "?N < 16 ^ 80" .
  from nat_toString_digits [of 16 ?N]
  obtain ds where s: "nat_toString 16 ?N = map ((!) b36) ds"
    and d: "\<forall>d \<in> set ds. d < 16" and v: "val 16 ds = ?N"
    and l: "\<forall>k. 0 < k \<longrightarrow> ?N < 16 ^ k \<longrightarrow> length ds \<le> k"
    by auto
  from l N have len: "length ds \<le> 80" by simp
  let ?D = "replicate (80 - length ds) 0 @ ds"
  have "?D = hex_digits bs"
  proof (rule val_inj)
    show "length ?D = length (hex_digits bs)"
      using len assms by (simp add: length_hex_digits)
    show "\<forall>d \<in> set ?D. d < 16" using d by auto
    show "\<forall>d \<in> set (hex_digits bs). d < 16" by (rule hex_digits_less)
    show "val 16 ?D = val 16 (hex_digits bs)"
      unfolding val_replicate_0 val_hex_digits by (rule v)
  qed
  moreover have "padStart (toString (int ?N) 16) 80 (CHR ''0'') = map ((!) b36) ?D"
    unfolding toString_nonneg s padStart_def by (simp add: b36_facts)
  moreover have "map ((!) b36) ?D = map ((!) hex_alphabet) ?D"
    using d by (intro map_cong) (auto simp: b36_hex_nth)
  ultimately show ?thesis by (simp add: hex_string_def)
qed

lemma toString_36_chars:
  "0 \<le> n \<Longrightarrow> \<exists>ds. toString n 36 = map ((!) b36) ds \<and> (\<forall>d \<in> set ds. d < 36)
        \<and> int (val 36 ds) = n"
  using nat_toString_digits [of 36 "nat n"] by (auto simp: toString_def)

section \<open>Results on \<open>parseAddress\<close> and \<open>getKeys\<close>\<close>

lemma and_then_simps:
  "and_then (Inl e) f = Inl e" "and_then (Inr x) f = f x"
  by (simp_all add: and_then_def)

lemma lib_simps: "lib (Inl e) = Inl (LibraryError e)" "lib (Inr x) = Inr x"
  by (simp_all add: lib_def)

subsection \<open>The two halves of \<open>parseAddress\<close>\<close>

lemma normalize_marker: "normalize_address (''ipns://'' @ a) = toLowerCase a"
  by (simp add: normalize_address_def startsWith_def slice_str_def)

lemma hex_string_tag:
  "hex_string [0x01, 0x72, 0x00, 0x24, 0x08, 0x01, 0x12, 0x20] = ''0172002408011220''"
  by (simp add: hex_string_def hex_digits_def hex_alphabet_def)

lemma parse_valid:
  assumes h: "parse_hexKey a = Inr (hex_string T)" and l: "length T = 40"
    and t: "take 8 T = [0x01, 0x72, 0x00, 0x24, 0x08, 0x01, 0x12, 0x20]"
  shows "parseAddress a = Inr T"
proof -
  have "hex_string T = hex_string (take 8 T @ drop 8 T)" by simp
  also have "\<dots> = ''0172002408011220'' @ hex_string (drop 8 T)"
    unfolding hex_string_append t hex_string_tag ..
  finally have "startsWith (hex_string T) ''0172002408011220''"
    by (simp add: startsWith_def)
  moreover have "length (hex_string T) = 80"
    using l by (simp add: length_hex_string)
  ultimately show ?thesis
    unfolding parseAddress_def h
    by (simp add: and_then_simps lib_simps hex_decode_hex_string)
qed

lemma toLowerCase_Cons: "toLowerCase (c # s) = lower_char c # toLowerCase s"
  by (simp add: toLowerCase_def)

lemma lower_indicator:
  "lower_char CHR ''k'' = CHR ''k''" "lower_char CHR ''b'' = CHR ''b''"
  "lower_char CHR ''f'' = CHR ''f''"
  by (simp_all add: lower_char_def)

lemma parse_f: "parse_hexKey (''ipns://f'' @ hex_string T) = Inr (hex_string T)"
proof -
  have "normalize_address (''ipns://f'' @ hex_string T) = CHR ''f'' # hex_string T"
    using normalize_marker [of "CHR ''f'' # hex_string T"]
    by (simp add: toLowerCase_Cons lower_indicator toLowerCase_hex_string)
  then show ?thesis
    by (simp add: parse_hexKey_def startsWith_def slice_str_def)
qed

lemma parse_b:
  assumes "length T mod 5 = 0" and "base32_encode T = Inr s"
  shows "parse_hexKey (''ipns://b'' @ toLowerCase s) = Inr (hex_string T)"
proof -
  have "normalize_address (''ipns://b'' @ toLowerCase s) = CHR ''b'' # toLowerCase s"
    using normalize_marker [of "CHR ''b'' # toLowerCase s"]
    by (simp add: toLowerCase_Cons lower_indicator toLowerCase_idem)
  then show ?thesis
    using base32_roundtrip [OF assms]
    by (simp add: parse_hexKey_def startsWith_def slice_str_def and_then_simps lib_simps
        hex_encode_eq)
qed

lemma parse_k:
  assumes "length T = 40"
  shows "parse_hexKey (''ipns://k'' @ toString (int (val 256 (map unat T))) 36)
         = Inr (hex_string T)"
proof -
  let ?N = "val 256 (map unat T)"
  from toString_36_chars [of "int ?N"]
  obtain ds where s: "toString (int ?N) 36 = map ((!) b36) ds"
    and d: "\<forall>d \<in> set ds. d < 36" and v: "val 36 ds = ?N"
    by auto
  have "set (map ((!) b36) ds) \<subseteq> set b36"
    using d by (auto simp: b36_facts)
  then have "toLowerCase (map ((!) b36) ds) = map ((!) b36) ds"
    unfolding toLowerCase_def by (intro map_idI) (auto simp: lower_char_b36)
  then have n: "normalize_address (''ipns://k'' @ toString (int ?N) 36)
      = CHR ''k'' # map ((!) b36) ds"
    using normalize_marker [of "CHR ''k'' # map ((!) b36) ds"]
    by (simp add: s toLowerCase_Cons lower_indicator)
  have "base36_value (CHR ''k'' # map ((!) b36) ds) = int ?N"
    using base36_value_digits [OF d] v by simp
  then show ?thesis
    unfolding parse_hexKey_def n Let_def
    by (simp add: startsWith_def hexKey_of_value [OF assms])
qed

subsection \<open>The bundle of \<open>getKeys\<close>\<close>

lemma getKeys_result:
  assumes "length seed = 32"
  shows "\<exists>s. base32_encode ([0x01, 0x72, 0x00, 0x24, 0x08, 0x01, 0x12, 0x20] @ pk seed) = Inr s
    \<and> getKeys pk seed = Inr
      \<lparr> publicKey = ''0x'' @ hex_string ([0x01, 0x72, 0x00, 0x24, 0x08, 0x01, 0x12, 0x20] @ pk seed),
        privateKey = ''0x'' @ hex_string ([0x08, 0x01, 0x12, 0x40] @ seed @ pk seed),
        base36 = ''ipns://k'' @ toString (int (val 256
            (map unat ([0x01, 0x72, 0x00, 0x24, 0x08, 0x01, 0x12, 0x20] @ pk seed)))) 36,
        base32 = ''ipns://b'' @ toLowerCase s,
        base16 = ''ipns://f'' @ hex_string ([0x01, 0x72, 0x00, 0x24, 0x08, 0x01, 0x12, 0x20] @ pk seed),
        contenthash = ''0xe501''
            @ hex_string ([0x01, 0x72, 0x00, 0x24, 0x08, 0x01, 0x12, 0x20] @ pk seed) \<rparr>"
proof -
  let ?T = "[0x01, 0x72, 0x00, 0x24, 0x08, 0x01, 0x12, 0x20] @ pk seed"
  obtain s where s: "base32_encode ?T = Inr s"
    using base32_encode_total [of ?T] by blast
  have b: "BigInt_0x (hex_string ?T) = Inr (int (val 256 (map unat ?T)))"
    by (rule BigInt_0x_hex_string) simp
  show ?thesis
    using assms s b
    by (intro exI [of _ s])
      (simp add: getKeys_def Let_def hex_encode_eq and_then_simps lib_simps
        toLowerCase_hex_string del: append_Cons)
qed

lemma vector_lengths: "length vector_seed = 32" "length vector_pub = 32"
  by (simp_all add: vector_seed_def vector_pub_def)

lemma hex_string_take: "take (2 * n) (hex_string bs) = hex_string (take n bs)"
proof (induction bs arbitrary: n)
  case Nil
  show ?case by (simp add: hex_string_def hex_digits_def)
next
  case (Cons b bs)
  show ?case
  proof (cases n)
    case 0
    then show ?thesis by (simp add: hex_string_def hex_digits_def)
  next
    case (Suc m)
    have "hex_string (b # bs) = hex_string [b] @ hex_string bs"
      using hex_string_append [of "[b]" bs] by simp
    moreover have "length (hex_string [b]) = 2" by (simp add: length_hex_string)
    moreover have "hex_string (take n (b # bs)) = hex_string [b] @ hex_string (take m bs)"
      using hex_string_append [of "[b]" "take m bs"] Suc by simp
    ultimately show ?thesis using Cons [of m] Suc by simp
  qed
qed

lemma take_toLowerCase: "take n (toLowerCase s) = toLowerCase (take n s)"
  by (simp add: toLowerCase_def take_map)

lemma prefix_length: "length ''0172002408011220'' = 16"
  by simp

lemma startsWith_prefix:
  "startsWith h ''0172002408011220'' = (take 16 h = ''0172002408011220'')"
  unfolding startsWith_def prefix_length ..

lemma parseAddress_Inr:
  assumes "parseAddress a = Inr bs"
  shows "\<exists>h. parse_hexKey a = Inr h \<and> startsWith h ''0172002408011220'' \<and> length h = 80
           \<and> hex_decode h = Inr bs"
  using assms
  by (auto simp: parseAddress_def and_then_def lib_def split: sum.splits if_splits)

lemma parsed_key_shape:
  assumes "parseAddress a = Inr bs"
  shows "length bs = 40 \<and> take 8 bs = [0x01, 0x72, 0x00, 0x24, 0x08, 0x01, 0x12, 0x20]"
proof -
  from parseAddress_Inr [OF assms]
  obtain h where p: "startsWith h ''0172002408011220''" and l: "length h = 80"
    and d: "hex_decode h = Inr bs" by blast
  from hex_decode_Inr [OF d] have e: "toLowerCase h = hex_string bs" .
  then have "length (hex_string bs) = 80"
    using l length_toLowerCase [of h] by simp
  then have len: "length bs = 40" by (simp add: length_hex_string)
  from p have "take 16 h = ''0172002408011220''" by (simp only: startsWith_prefix)
  then have "toLowerCase (take 16 h) = ''0172002408011220''"
    by (simp add: toLowerCase_def lower_char_def)
  then have "take (2 * 8) (hex_string bs) = ''0172002408011220''"
    using e take_toLowerCase [of 16 h] by simp
  then have "hex_string (take 8 bs) = hex_string [0x01, 0x72, 0x00, 0x24, 0x08, 0x01, 0x12, 0x20]"
    unfolding hex_string_take hex_string_tag .
  then have "take 8 bs = [0x01, 0x72, 0x00, 0x24, 0x08, 0x01, 0x12, 0x20]"
    by (rule hex_string_inj)
  with len show ?thesis ..
qed

subsection \<open>The known vector\<close>

text \<open>
  The strings of the known vector are obtained from the results above, by comparing the
  values of digit lists, not by running the loops of the coders.
\<close>

lemma vector_hex:
  "hex_string ([0x01, 0x72, 0x00, 0x24, 0x08, 0x01, 0x12, 0x20] @ vector_pub)
   = ''017200240801122012c8299ec2c51dffbbcb4f9fccadcee1424cb237e9b30d3cd72d47c18103689d''"
  by (simp add: hex_string_def hex_digits_def hex_alphabet_def vector_pub_def)

lemma vector_parse_f:
  "parseAddress
     ''ipns://f017200240801122012c8299ec2c51dffbbcb4f9fccadcee1424cb237e9b30d3cd72d47c18103689d''
   = Inr ([0x01, 0x72, 0x00, 0x24, 0x08, 0x01, 0x12, 0x20] @ vector_pub)"
proof -
  let ?T = "[0x01, 0x72, 0x00, 0x24, 0x08, 0x01, 0x12, 0x20] @ vector_pub"
  have "parseAddress (''ipns://f'' @ hex_string ?T) = Inr ?T"
    by (rule parse_valid [OF parse_f]) (simp_all add: vector_lengths)
  then show ?thesis unfolding vector_hex by simp
qed

lemma base32_encode_known:
  assumes "length bs mod 5 = 0" and "val 32 ds = val 256 (map unat bs)"
    and "length ds * 5 = length bs * 8" and "\<forall>d \<in> set ds. d < 32"
  shows "base32_encode bs = Inr (map ((!) base32_alphabet) ds)"
proof -
  from base32_encode_exact [OF assms(1)]
  obtain es where e: "base32_encode bs = Inr (map ((!) base32_alphabet) es)"
    and v: "val 32 es = val 256 (map unat bs)"
    and l: "length es * 5 = length bs * 8"
    and d: "\<forall>d \<in> set es. d < 32"
    by blast
  have "es = ds"
    by (rule val_inj [of _ _ 32]) (use assms v l d in auto)
  with e show ?thesis by simp
qed

lemma vector_base32:
  "base32_encode ([0x01, 0x72, 0x00, 0x24, 0x08, 0x01, 0x12, 0x20] @ vector_pub)
   = Inr ''AFZAAJAIAEJCAEWIFGPMFRI57654WT47ZSW45YKCJSZDP2NTBU6NOLKHYGAQG2E5''"
proof -
  let ?T = "[0x01, 0x72, 0x00, 0x24, 0x08, 0x01, 0x12, 0x20] @ vector_pub"
  define ds :: "nat list" where
    "ds = [0, 5, 25, 0, 0, 9, 0, 8, 0, 4, 9, 2, 0, 4, 22, 8, 5, 6, 15, 12, 5, 17, 8, 29,
      31, 30, 29, 28, 22, 19, 28, 31, 25, 18, 22, 28, 29, 24, 10, 2, 9, 18, 25, 3, 15, 26,
      13, 19, 1, 20, 30, 13, 14, 11, 10, 7, 24, 6, 0, 16, 6, 26, 4, 29]"
  have "base32_encode ?T = Inr (map ((!) base32_alphabet) ds)"
  proof (rule base32_encode_known)
    show "length ?T mod 5 = 0"
      by (simp add: vector_lengths)
    show "val 32 ds = val 256 (map unat ?T)"
      by (simp add: val_def ds_def vector_pub_def)
    show "length ds * 5 = length ?T * 8"
      by (simp add: ds_def vector_lengths)
    show "\<forall>d \<in> set ds. d < 32"
      by (simp add: ds_def)
  qed
  also have "map ((!) base32_alphabet) ds
      = ''AFZAAJAIAEJCAEWIFGPMFRI57654WT47ZSW45YKCJSZDP2NTBU6NOLKHYGAQG2E5''"
    by (simp add: ds_def base32_alphabet_def)
  finally show ?thesis .
qed

lemma vector_base32_lower:
  "toLowerCase ''AFZAAJAIAEJCAEWIFGPMFRI57654WT47ZSW45YKCJSZDP2NTBU6NOLKHYGAQG2E5''
   = ''afzaajaiaejcaewifgpmfri57654wt47zsw45ykcjszdp2ntbu6nolkhygaqg2e5''"
  by (simp add: toLowerCase_def lower_char_def char_of_eq_iff)

lemma parseAddress_normalize:
  "normalize_address s = normalize_address t \<Longrightarrow> parseAddress s = parseAddress t"
  by (simp add: parseAddress_def parse_hexKey_def)

lemma parseAddress_marker:
  "\<not> startsWith a ''ipns://'' \<Longrightarrow> parseAddress (''ipns://'' @ a) = parseAddress a"
proof (rule parseAddress_normalize)
  assume "\<not> startsWith a ''ipns://''"
  then have "normalize_address a = toLowerCase a"
    by (simp add: normalize_address_def)
  then show "normalize_address (''ipns://'' @ a) = normalize_address a"
    unfolding normalize_marker by simp
qed

lemma vector_parse_b:
  "parseAddress ''ipns://bafzaajaiaejcaewifgpmfri57654wt47zsw45ykcjszdp2ntbu6nolkhygaqg2e5''
   = Inr ([0x01, 0x72, 0x00, 0x24, 0x08, 0x01, 0x12, 0x20] @ vector_pub)"
proof -
  let ?T = "[0x01, 0x72, 0x00, 0x24, 0x08, 0x01, 0x12, 0x20] @ vector_pub"
  have "parseAddress (''ipns://b''
      @ toLowerCase ''AFZAAJAIAEJCAEWIFGPMFRI57654WT47ZSW45YKCJSZDP2NTBU6NOLKHYGAQG2E5'') = Inr ?T"
    by (rule parse_valid [OF parse_b [OF _ vector_base32]]) (simp_all add: vector_lengths)
  then show ?thesis unfolding vector_base32_lower by simp
qed

lemma vector_parse_bare:
  "parseAddress ''bafzaajaiaejcaewifgpmfri57654wt47zsw45ykcjszdp2ntbu6nolkhygaqg2e5''
   = Inr ([0x01, 0x72, 0x00, 0x24, 0x08, 0x01, 0x12, 0x20] @ vector_pub)"
proof -
  have "\<not> startsWith ''bafzaajaiaejcaewifgpmfri57654wt47zsw45ykcjszdp2ntbu6nolkhygaqg2e5''
      ''ipns://''"
    by (simp add: startsWith_def)
  from parseAddress_marker [OF this] vector_parse_b show ?thesis by simp
qed

lemma vector_getKeys:
  assumes "getPublicKey vector_seed = vector_pub"
  shows "\<exists>b. getKeys getPublicKey vector_seed = Inr b
    \<and> publicKey b
        = ''0x017200240801122012c8299ec2c51dffbbcb4f9fccadcee1424cb237e9b30d3cd72d47c18103689d''
    \<and> base32 b = ''ipns://bafzaajaiaejcaewifgpmfri57654wt47zsw45ykcjszdp2ntbu6nolkhygaqg2e5''
    \<and> base16 b
        =
            ''ipns://f017200240801122012c8299ec2c51dffbbcb4f9fccadcee1424cb237e9b30d3cd72d47c18103689d''
    \<and> contenthash b
        =
            ''0xe501017200240801122012c8299ec2c51dffbbcb4f9fccadcee1424cb237e9b30d3cd72d47c18103689d''"
  using getKeys_result [OF vector_lengths(1), of getPublicKey]
  unfolding assms vector_hex vector_base32
  by (auto simp: vector_base32_lower)

subsection \<open>Letter case\<close>

lemma marker_length: "length ''ipns://'' = 7"
  by simp

lemma startsWith_marker: "startsWith s ''ipns://'' = (take 7 s = ''ipns://'')"
  unfolding startsWith_def marker_length ..

lemma drop_toLowerCase: "drop n (toLowerCase s) = toLowerCase (drop n s)"
  by (simp add: toLowerCase_def drop_map)

lemma normalize_case:
  assumes "toLowerCase s = toLowerCase t"
    and "startsWith s ''ipns://'' = startsWith t ''ipns://''"
  shows "normalize_address s = normalize_address t"
proof (cases "startsWith s ''ipns://''")
  case True
  with assms(2) have "startsWith t ''ipns://''" by simp
  with True have "normalize_address s = drop 7 (toLowerCase s)"
    and "normalize_address t = drop 7 (toLowerCase t)"
    by (simp_all add: normalize_address_def slice_str_def drop_toLowerCase)
  with assms(1) show ?thesis by simp
next
  case False
  with assms(2) have "\<not> startsWith t ''ipns://''" by simp
  with False assms(1) show ?thesis by (simp add: normalize_address_def)
qed

lemma marker_other_case:
  assumes "toLowerCase (take 7 s) = ''ipns://''" and "take 7 s \<noteq> ''ipns://''"
  shows "parseAddress s = Inl UnsupportedFormat"
proof -
  from assms(2) have "normalize_address s = toLowerCase s"
    by (simp add: normalize_address_def startsWith_marker)
  moreover from assms(1) have "take 7 (toLowerCase s) = ''ipns://''"
    by (simp add: take_toLowerCase)
  then have "take 1 (take 7 (toLowerCase s)) = ''i''" by simp
  then have "take 1 (toLowerCase s) = ''i''" by (simp add: min_def)
  ultimately have "take 1 (normalize_address s) = ''i''" by simp
  then show ?thesis
    by (simp add: parseAddress_def parse_hexKey_def startsWith_def and_then_simps)
qed

subsection \<open>The \<open>k\<close> branch\<close>

lemma toLowerCase_append: "toLowerCase (xs @ ys) = toLowerCase xs @ toLowerCase ys"
  by (simp add: toLowerCase_def)

lemma nat_toString_16_chars: "set (nat_toString 16 n) \<subseteq> set hex_alphabet"
proof -
  from nat_toString_digits [of 16 n]
  obtain ds where s: "nat_toString 16 n = map ((!) b36) ds" and d: "\<forall>d \<in> set ds. d < 16"
    by auto
  have "b36 ! d \<in> set hex_alphabet" if "d < 16" for d
    using that nth_mem [of d hex_alphabet] by (simp add: b36_hex_nth hex_alphabet_facts)
  with d show ?thesis unfolding s by auto
qed

lemma zero_hex: "CHR ''0'' \<in> set hex_alphabet"
  by (simp add: hex_alphabet_def)

lemma hexKey_nonneg_chars:
  assumes "0 \<le> v"
  shows "set (padStart (toString v 16) 80 (CHR ''0'')) \<subseteq> set hex_alphabet"
  using assms nat_toString_16_chars [of "nat v"] zero_hex
  by (auto simp: padStart_def toString_def)

lemma hexKey_negative:
  assumes "v < 0"
  shows "\<not> startsWith (padStart (toString v 16) 80 (CHR ''0'')) ''0172002408011220''"
proof
  define r where "r = nat_toString 16 (nat (- v))"
  define k where "k = 80 - length (CHR ''-'' # r)"
  define w where "w = replicate k (CHR ''0'') @ CHR ''-'' # r"
  have h: "padStart (toString v 16) 80 (CHR ''0'') = w"
    using assms by (simp add: padStart_def toString_def w_def k_def r_def)
  assume "startsWith (padStart (toString v 16) 80 (CHR ''0'')) ''0172002408011220''"
  then have "take 16 w = ''0172002408011220''"
    unfolding h startsWith_prefix .
  then have "take 2 (take 16 w) = ''01''" by simp
  then have t: "take 2 w = ''01''" by (simp add: min_def)
  show False
  proof (cases k)
    case 0
    with t show False by (simp add: w_def)
  next
    case (Suc j)
    with t show False by (cases j) (simp_all add: w_def)
  qed
qed

lemma hexKey_k_decodes:
  assumes "startsWith (padStart (toString v 16) 80 (CHR ''0'')) ''0172002408011220''"
    and "length (padStart (toString v 16) 80 (CHR ''0'')) = 80"
  shows "\<exists>bs. hex_decode (padStart (toString v 16) 80 (CHR ''0'')) = Inr bs"
proof -
  let ?h = "padStart (toString v 16) 80 (CHR ''0'')"
  from assms(1) hexKey_negative [of v] have "0 \<le> v" by fastforce
  from hexKey_nonneg_chars [OF this] have c: "set ?h \<subseteq> set hex_alphabet" .
  then have "toLowerCase ?h = ?h"
    unfolding toLowerCase_def by (intro map_idI) (auto simp: lower_char_hex)
  with c assms(2) show ?thesis
    by (simp add: hex_decode_is_Inr)
qed

lemma parse_k_branch:
  assumes "startsWith (normalize_address a) ''k''"
  shows "parse_hexKey a
    = Inr (padStart (toString (base36_value (normalize_address a)) 16) 80 (CHR ''0''))"
  using assms by (simp add: parse_hexKey_def)

lemma parse_k_result:
  assumes "startsWith (normalize_address a) ''k''"
  shows "(\<exists>bs. parseAddress a = Inr bs) \<or> (\<exists>h. parseAddress a = Inl (InvalidPrefix h))"
proof -
  let ?h = "padStart (toString (base36_value (normalize_address a)) 16) 80 (CHR ''0'')"
  show ?thesis
  proof (cases "startsWith ?h ''0172002408011220'' \<and> length ?h = 80")
    case True
    with hexKey_k_decodes obtain bs where "hex_decode ?h = Inr bs" by blast
    with True have "parseAddress a = Inr bs"
      unfolding parseAddress_def parse_k_branch [OF assms]
      by (simp add: and_then_simps lib_simps)
    then show ?thesis by blast
  next
    case False
    then have "parseAddress a = Inl (InvalidPrefix ?h)"
      unfolding parseAddress_def parse_k_branch [OF assms]
      by (auto simp: and_then_simps)
    then show ?thesis by blast
  qed
qed

lemma base36_value_snoc:
  "base36_value (i # xs @ [c]) = base36_value (i # xs) * 36 + indexOf b36 c"
  by (simp add: base36_value_def)

lemma stray_value:
  "base36_value ''k51qzi5uqu5dg6l7sg2ssb5uefnq8g7g1d6n6j2zsio0o0k7snyb11p8myhxy!''
   = int (val 256 (map unat ([1, 114, 0, 36, 8, 1, 18, 32, 0, 0, 0, 0, 0, 0, 0, 0, 0, 0, 0, 0, 0,
       0, 0, 0, 0, 0, 0, 0, 0, 0, 0, 0, 0, 0, 0, 0, 0, 0, 0, 23] :: bytes)))"
proof -
  have "base36_value ''k51qzi5uqu5dg6l7sg2ssb5uefnq8g7g1d6n6j2zsio0o0k7snyb11p8myhxy!''
      = 12059270899086145346488466537830191771007057442684537095144791479117637701667419345234511790103"
    by (simp add: base36_value_def indexOf_def b36_def)
  moreover have "val 256 (map unat ([1, 114, 0, 36, 8, 1, 18, 32, 0, 0, 0, 0, 0, 0, 0, 0, 0, 0,
      0, 0, 0, 0, 0, 0, 0, 0, 0, 0, 0, 0, 0, 0, 0, 0, 0, 0, 0, 0, 0, 23] :: bytes))
      = 12059270899086145346488466537830191771007057442684537095144791479117637701667419345234511790103"
    by (simp add: val_def)
  ultimately show ?thesis by simp
qed

subsection \<open>The check of \<open>hexKey\<close>\<close>

lemma toLowerCase_fixed: "(\<forall>c \<in> set s. lower_char c = c) \<Longrightarrow> toLowerCase s = s"
  unfolding toLowerCase_def by (rule map_idI) simp

lemma toString_16_lower: "toLowerCase (toString v 16) = toString v 16"
proof (rule toLowerCase_fixed)
  have "lower_char (CHR ''-'') = CHR ''-''" by (simp add: lower_char_def)
  then show "\<forall>c \<in> set (toString v 16). lower_char c = c"
    using nat_toString_16_chars lower_char_hex by (auto simp: toString_def)
qed

lemma parse_hexKey_lower:
  assumes "parse_hexKey a = Inr h"
  shows "toLowerCase h = h"
proof -
  let ?n = "normalize_address a"
  consider (k) "startsWith ?n ''k''"
    | (b) "\<not> startsWith ?n ''k''" "startsWith ?n ''b''"
    | (f) "\<not> startsWith ?n ''k''" "\<not> startsWith ?n ''b''" "startsWith ?n ''f''"
    | (none) "\<not> startsWith ?n ''k''" "\<not> startsWith ?n ''b''" "\<not> startsWith ?n ''f''"
    by blast
  then show ?thesis
  proof cases
    case k
    have "lower_char (CHR ''0'') = CHR ''0''" by (simp add: lower_char_def)
    then have "toLowerCase (padStart (toString v 16) 80 (CHR ''0''))
        = padStart (toString v 16) 80 (CHR ''0'')" for v
      by (simp add: padStart_def toLowerCase_append toString_16_lower)
        (simp add: toLowerCase_def)
    with assms k show ?thesis by (auto simp: parse_hexKey_def)
  next
    case b
    with assms obtain bs where "h = hex_string bs"
      by (auto simp: parse_hexKey_def and_then_def lib_def hex_encode_eq split: sum.splits)
    then show ?thesis by (simp add: toLowerCase_hex_string)
  next
    case f
    with assms have "h = drop 1 (toLowerCase
        (if startsWith a ''ipns://'' then slice_str a 7 else a))"
      by (simp add: parse_hexKey_def slice_str_def normalize_address_def)
    then show ?thesis
      by (simp only: drop_toLowerCase toLowerCase_idem)
  next
    case none
    with assms show ?thesis by (simp add: parse_hexKey_def)
  qed
qed

lemma parseAddress_success:
  assumes "parse_hexKey a = Inr h"
  shows "(\<exists>bs. parseAddress a = Inr bs)
     = (length h = 80 \<and> startsWith h ''0172002408011220'' \<and> set h \<subseteq> set hex_alphabet)"
proof (cases "startsWith h ''0172002408011220'' \<and> length h = 80")
  case True
  then have "parseAddress a = lib (hex_decode h)"
    unfolding parseAddress_def assms by (simp add: and_then_simps)
  then have "(\<exists>bs. parseAddress a = Inr bs) = (\<exists>bs. hex_decode h = Inr bs)"
    by (cases "hex_decode h") (simp_all add: lib_simps)
  also have "\<dots> = (set h \<subseteq> set hex_alphabet)"
    using True by (simp add: hex_decode_is_Inr parse_hexKey_lower [OF assms])
  finally show ?thesis using True by simp
next
  case False
  then have "parseAddress a = Inl (InvalidPrefix h)"
    unfolding parseAddress_def assms by (auto simp: and_then_simps)
  with False show ?thesis by auto
qed

lemma parseAddress_invalid:
  assumes "parse_hexKey a = Inr h"
    and "\<not> (length h = 80 \<and> startsWith h ''0172002408011220'')"
  shows "parseAddress a = Inl (InvalidPrefix h)"
  using assms(2) unfolding parseAddress_def assms(1) by (auto simp: and_then_simps)

subsection \<open>\<open>formatPublicKey\<close>\<close>

lemma formatPublicKey_result:
  assumes "bs \<noteq> []"
  shows "formatPublicKey bs = Inr (''ipns://k'' @ toString (int (val 256 (map unat bs))) 36)"
  using BigInt_0x_hex_string [OF assms]
  by (simp add: formatPublicKey_def hex_encode_eq and_then_simps lib_simps)

subsection \<open>The known vector in base 36\<close>

lemma val_leading: "0 < d \<Longrightarrow> 0 < b \<Longrightarrow> 0 < val b (d # ds)"
  by (simp add: val_Cons)

text \<open>
  \<open>toString\<close> of the value of a digit list that starts with a digit other than zero gives
  the characters of these digits.
\<close>

lemma nat_toString_of_digits:
  assumes "2 \<le> r" and "0 < d0"
  shows "\<forall>d \<in> set (d0 # ds). d < r
    \<Longrightarrow> nat_toString r (val r (d0 # ds)) = map ((!) b36) (d0 # ds)"
proof (induction ds rule: rev_induct)
  case Nil
  then have "val r [d0] < r" by (simp add: val_single)
  then show ?case by (subst nat_toString.simps) (simp add: val_single)
next
  case (snoc d ds)
  let ?m = "val r (d0 # ds)"
  from snoc.prems have d: "d < r" by simp
  from assms val_leading [of d0 r ds] have m: "0 < ?m" by simp
  have v: "val r (d0 # ds @ [d]) = ?m * r + d"
    using val_snoc [of r "d0 # ds" d] by simp
  from m have "r \<le> ?m * r" by (cases ?m) simp_all
  then have "\<not> ?m * r + d < r" by (simp add: not_less trans_le_add1)
  with assms(1) have "\<not> (r < 2 \<or> ?m * r + d < r)" by simp
  then have "nat_toString r (?m * r + d)
      = nat_toString r ((?m * r + d) div r) @ [b36 ! ((?m * r + d) mod r)]"
    by (subst nat_toString.simps) simp
  also have "(?m * r + d) div r = ?m" using d by simp
  also have "(?m * r + d) mod r = d" using d by simp
  finally show ?case using snoc v by simp
qed

lemma vector_base36:
  "toString (int (val 256 (map unat
      ([0x01, 0x72, 0x00, 0x24, 0x08, 0x01, 0x12, 0x20] @ vector_pub)))) 36
   = ''51qzi5uqu5dgnfwbc46une4upw1vc9hxznymyeykmg6rev1513yrnbyrwmmql''"
proof -
  let ?T = "[0x01, 0x72, 0x00, 0x24, 0x08, 0x01, 0x12, 0x20] @ vector_pub"
  define ds :: "nat list" where
    "ds = [1, 26, 35, 18, 5, 30, 26, 30, 5, 13, 16, 23, 15, 32, 11, 12, 4, 6, 30, 23, 14, 4,
      30, 25, 32, 1, 31, 12, 9, 17, 33, 35, 23, 34, 22, 34, 14, 34, 20, 22, 16, 6, 27, 14, 31,
      1, 5, 1, 3, 34, 27, 23, 11, 34, 27, 32, 22, 22, 26, 21]"
  have "val 256 (map unat ?T) = val 36 (5 # ds)"
    by (simp add: val_def ds_def vector_pub_def)
  moreover have "nat_toString 36 (val 36 (5 # ds)) = map ((!) b36) (5 # ds)"
    by (rule nat_toString_of_digits) (simp_all add: ds_def)
  moreover have "map ((!) b36) (5 # ds)
      = ''51qzi5uqu5dgnfwbc46une4upw1vc9hxznymyeykmg6rev1513yrnbyrwmmql''"
    by (simp add: ds_def b36_def)
  ultimately show ?thesis by (simp add: toString_nonneg)
qed

lemma vector_private:
  "hex_string ([0x08, 0x01, 0x12, 0x40] @ vector_seed @ vector_pub)
   = ''08011240'' @ ''0681d6420abb1ba47acd5c03c8e5ee84185a2673576b262e234e50c46d86f597''
       @ ''12c8299ec2c51dffbbcb4f9fccadcee1424cb237e9b30d3cd72d47c18103689d''"
  by (simp add: hex_string_def hex_digits_def hex_alphabet_def vector_pub_def vector_seed_def)

lemma vector_bundle:
  "getKeys vector_getPublicKey vector_seed = Inr
     \<lparr> publicKey = ''0x'' @
         ''017200240801122012c8299ec2c51dffbbcb4f9fccadcee1424cb237e9b30d3cd72d47c18103689d'',
       privateKey = ''0x08011240''
         @ ''0681d6420abb1ba47acd5c03c8e5ee84185a2673576b262e234e50c46d86f597''
         @ ''12c8299ec2c51dffbbcb4f9fccadcee1424cb237e9b30d3cd72d47c18103689d'',
       base36 = ''ipns://k51qzi5uqu5dgnfwbc46une4upw1vc9hxznymyeykmg6rev1513yrnbyrwmmql'',
       base32 = ''ipns://bafzaajaiaejcaewifgpmfri57654wt47zsw45ykcjszdp2ntbu6nolkhygaqg2e5'',
       base16 = ''ipns://f'' @
         ''017200240801122012c8299ec2c51dffbbcb4f9fccadcee1424cb237e9b30d3cd72d47c18103689d'',
       contenthash = ''0xe501'' @
         ''017200240801122012c8299ec2c51dffbbcb4f9fccadcee1424cb237e9b30d3cd72d47c18103689d'' \<rparr>"
  using getKeys_result [OF vector_lengths(1), of vector_getPublicKey]
  unfolding vector_getPublicKey_def vector_hex vector_base32 vector_base36 vector_private
  by (auto simp: vector_base32_lower)

lemma vector_format:
  "formatPublicKey ([0x01, 0x72, 0x00, 0x24, 0x08, 0x01, 0x12, 0x20] @ vector_pub)
   = Inr ''ipns://k51qzi5uqu5dgnfwbc46une4upw1vc9hxznymyeykmg6rev1513yrnbyrwmmql''"
proof -
  have "[0x01, 0x72, 0x00, 0x24, 0x08, 0x01, 0x12, 0x20] @ vector_pub \<noteq> []" by simp
  from formatPublicKey_result [OF this] show ?thesis
    unfolding vector_base36 by simp
qed

section \<open>The claims\<close>

text \<open>
  C1. Round trip. For a seed of 32 bytes whose public key \<open>p\<close> has 32 bytes, \<open>getKeys\<close>
  returns a bundle whose three addresses begin with \<open>ipns://k\<close>, \<open>ipns://b\<close> and
  \<open>ipns://f\<close>, and \<open>parseAddress\<close> of each of them returns the 40 bytes of the tag
  followed by \<open>p\<close>.
\<close>

theorem round_trip:
  assumes "length seed = 32" and "getPublicKey seed = p" and "length p = 32"
  shows "\<exists>b. getKeys getPublicKey seed = Inr b
    \<and> take 8 (base36 b) = ''ipns://k'' \<and> take 8 (base32 b) = ''ipns://b''
    \<and> take 8 (base16 b) = ''ipns://f''
    \<and> parseAddress (base36 b) = Inr ([0x01, 0x72, 0x00, 0x24, 0x08, 0x01, 0x12, 0x20] @ p)
    \<and> parseAddress (base32 b) = Inr ([0x01, 0x72, 0x00, 0x24, 0x08, 0x01, 0x12, 0x20] @ p)
    \<and> parseAddress (base16 b) = Inr ([0x01, 0x72, 0x00, 0x24, 0x08, 0x01, 0x12, 0x20] @ p)"
proof -
  let ?T = "[0x01, 0x72, 0x00, 0x24, 0x08, 0x01, 0x12, 0x20] @ p"
  have l: "length ?T = 40" and l5: "length ?T mod 5 = 0"
    and t: "take 8 ?T = [0x01, 0x72, 0x00, 0x24, 0x08, 0x01, 0x12, 0x20]"
    using assms(3) by simp_all
  from getKeys_result [OF assms(1), of getPublicKey]
  obtain s b where s: "base32_encode ?T = Inr s" and g: "getKeys getPublicKey seed = Inr b"
    and k: "base36 b = ''ipns://k'' @ toString (int (val 256 (map unat ?T))) 36"
    and b: "base32 b = ''ipns://b'' @ toLowerCase s"
    and f: "base16 b = ''ipns://f'' @ hex_string ?T"
    unfolding assms(2) by force
  have "parseAddress (base36 b) = Inr ?T"
    unfolding k by (rule parse_valid [OF parse_k [OF l] l t])
  moreover have "parseAddress (base32 b) = Inr ?T"
    unfolding b by (rule parse_valid [OF parse_b [OF l5 s] l t])
  moreover have "parseAddress (base16 b) = Inr ?T"
    unfolding f by (rule parse_valid [OF parse_f l t])
  ultimately show ?thesis
    using g k b f by simp
qed

theorem round_trip_witness:
  "length vector_seed = 32 \<and> vector_getPublicKey vector_seed = vector_pub
   \<and> length vector_pub = 32
   \<and> (\<exists>b. getKeys vector_getPublicKey vector_seed = Inr b
    \<and> take 8 (base36 b) = ''ipns://k'' \<and> take 8 (base32 b) = ''ipns://b''
    \<and> take 8 (base16 b) = ''ipns://f''
    \<and> parseAddress (base36 b) = Inr ([0x01, 0x72, 0x00, 0x24, 0x08, 0x01, 0x12, 0x20] @ vector_pub)
    \<and> parseAddress (base32 b) = Inr ([0x01, 0x72, 0x00, 0x24, 0x08, 0x01, 0x12, 0x20] @ vector_pub)
    \<and> parseAddress (base16 b) = Inr ([0x01, 0x72, 0x00, 0x24, 0x08, 0x01, 0x12, 0x20] @ vector_pub))"
proof -
  have 1: "length vector_seed = 32" and 3: "length vector_pub = 32"
    by (rule vector_lengths)+
  have 2: "vector_getPublicKey vector_seed = vector_pub"
    by (simp add: vector_getPublicKey_def)
  from round_trip [of vector_seed vector_getPublicKey vector_pub, OF 1 2 3] 1 2 3
  show ?thesis by blast
qed

text \<open>
  C2. A character outside \<open>0-9a-z\<close> in the payload of the \<open>k\<close> branch. The loop of
  \<open>parseAddress\<close> checks no digit: \<open>indexOf\<close> gives \<open>-1\<close> for such a character and the loop
  adds it as a digit. The first address below belongs to the \<open>k\<close> branch and its payload ends
  with \<open>!\<close>; \<open>parseAddress\<close> does not fail on it, it returns a key, the tag followed by 31
  zero bytes and the byte 23. For \<open>k!\<close> it fails, with the error of the prefix check on
  the string \<open>00...0-1\<close>; no error of \<open>parseAddress\<close> is about a digit.
\<close>

theorem stray_character_evaluation:
  "CHR ''!'' \<in> set ''k51qzi5uqu5dg6l7sg2ssb5uefnq8g7g1d6n6j2zsio0o0k7snyb11p8myhxy!''
   \<and> CHR ''!'' \<notin> set ''0123456789abcdefghijklmnopqrstuvwxyz''
   \<and> parseAddress ''k51qzi5uqu5dg6l7sg2ssb5uefnq8g7g1d6n6j2zsio0o0k7snyb11p8myhxy!''
     = Inr [1, 114, 0, 36, 8, 1, 18, 32, 0, 0, 0, 0, 0, 0, 0, 0, 0, 0, 0, 0, 0, 0, 0, 0, 0, 0, 0,
         0, 0, 0, 0, 0, 0, 0, 0, 0, 0, 0, 0, 23]
   \<and> parseAddress ''k!''
     = Inl (InvalidPrefix
         ''000000000000000000000000000000000000000000000000000000000000000000000000000000-1'')"
proof -
  let ?a = "''k51qzi5uqu5dg6l7sg2ssb5uefnq8g7g1d6n6j2zsio0o0k7snyb11p8myhxy!''"
  let ?T = "[1, 114, 0, 36, 8, 1, 18, 32, 0, 0, 0, 0, 0, 0, 0, 0, 0, 0, 0, 0, 0, 0, 0, 0, 0, 0,
      0, 0, 0, 0, 0, 0, 0, 0, 0, 0, 0, 0, 0, 23] :: bytes"
  have n: "normalize_address ?a = ?a"
    by (simp add: normalize_address_def startsWith_def toLowerCase_def lower_char_def)
  have "parse_hexKey ?a = Inr (padStart (toString (base36_value ?a) 16) 80 (CHR ''0''))"
    using parse_k_branch [of ?a] unfolding n by (simp add: startsWith_def)
  also have "padStart (toString (base36_value ?a) 16) 80 (CHR ''0'') = hex_string ?T"
    unfolding stray_value by (rule hexKey_of_value) simp
  finally have 1: "parseAddress ?a = Inr ?T"
    by (rule parse_valid) simp_all
  have "normalize_address ''k!'' = ''k!''"
    by (simp add: normalize_address_def startsWith_def toLowerCase_def lower_char_def)
  moreover have "base36_value ''k!'' = - 1"
    by (simp add: base36_value_def indexOf_def b36_def)
  moreover have "toString (- 1) 16 = ''-1''"
    by (simp add: toString_def nat_toString.simps [of 16 "Suc 0"] b36_def)
  ultimately have "parse_hexKey ''k!''
      = Inr ''000000000000000000000000000000000000000000000000000000000000000000000000000000-1''"
    by (simp add: parse_hexKey_def startsWith_def padStart_def eval_nat_numeral)
  then have 2: "parseAddress ''k!''
     = Inl (InvalidPrefix
         ''000000000000000000000000000000000000000000000000000000000000000000000000000000-1'')"
    by (simp add: parseAddress_def and_then_simps startsWith_def)
  from 1 2 show ?thesis by simp
qed

text \<open>
  C3. Letter case, as amended. The base indicator and the payload are read without
  regard to case, the scheme marker is not: two addresses with the same lower-case form
  that both begin with \<open>ipns://\<close> in lower case, or both do not, have the same result; an
  address whose first seven characters are \<open>ipns://\<close> in another case is not stripped and
  fails with the unsupported-format error.
\<close>

theorem case_insensitive:
  "(toLowerCase s = toLowerCase t \<and> startsWith s ''ipns://'' = startsWith t ''ipns://''
      \<longrightarrow> parseAddress s = parseAddress t)
   \<and> (toLowerCase (take 7 s) = ''ipns://'' \<and> take 7 s \<noteq> ''ipns://''
      \<longrightarrow> parseAddress s = Inl UnsupportedFormat)"
  using normalize_case [of s t] parseAddress_normalize [of s t] marker_other_case [of s]
  by blast

theorem case_insensitive_witness:
  "toLowerCase
       ''ipns://F017200240801122012C8299EC2C51DFFBBCB4F9FCCADCEE1424CB237E9B30D3CD72D47C18103689D''
     = toLowerCase
       ''ipns://f017200240801122012c8299ec2c51dffbbcb4f9fccadcee1424cb237e9b30d3cd72d47c18103689d''
   \<and> startsWith
       ''ipns://F017200240801122012C8299EC2C51DFFBBCB4F9FCCADCEE1424CB237E9B30D3CD72D47C18103689D''
       ''ipns://''
     = startsWith
       ''ipns://f017200240801122012c8299ec2c51dffbbcb4f9fccadcee1424cb237e9b30d3cd72d47c18103689d''
       ''ipns://''
   \<and> parseAddress
       ''ipns://F017200240801122012C8299EC2C51DFFBBCB4F9FCCADCEE1424CB237E9B30D3CD72D47C18103689D''
     = parseAddress
       ''ipns://f017200240801122012c8299ec2c51dffbbcb4f9fccadcee1424cb237e9b30d3cd72d47c18103689d''
   \<and> parseAddress
       ''ipns://f017200240801122012c8299ec2c51dffbbcb4f9fccadcee1424cb237e9b30d3cd72d47c18103689d''
     = Inr ([0x01, 0x72, 0x00, 0x24, 0x08, 0x01, 0x12, 0x20] @ vector_pub)
   \<and> toLowerCase (take 7
       ''IPNS://f017200240801122012c8299ec2c51dffbbcb4f9fccadcee1424cb237e9b30d3cd72d47c18103689d'')
     = ''ipns://''
   \<and> take 7
       ''IPNS://f017200240801122012c8299ec2c51dffbbcb4f9fccadcee1424cb237e9b30d3cd72d47c18103689d''
     \<noteq> ''ipns://''
   \<and> parseAddress
       ''IPNS://f017200240801122012c8299ec2c51dffbbcb4f9fccadcee1424cb237e9b30d3cd72d47c18103689d''
     = Inl UnsupportedFormat"
proof -
  let ?upper =
    "''ipns://F017200240801122012C8299EC2C51DFFBBCB4F9FCCADCEE1424CB237E9B30D3CD72D47C18103689D''"
  let ?lower =
    "''ipns://f017200240801122012c8299ec2c51dffbbcb4f9fccadcee1424cb237e9b30d3cd72d47c18103689d''"
  let ?marker =
    "''IPNS://f017200240801122012c8299ec2c51dffbbcb4f9fccadcee1424cb237e9b30d3cd72d47c18103689d''"
  have 1: "toLowerCase ?upper = toLowerCase ?lower
      \<and> startsWith ?upper ''ipns://'' = startsWith ?lower ''ipns://''"
    by (simp add: toLowerCase_def lower_char_def char_of_eq_iff startsWith_def)
  have 2: "toLowerCase (take 7 ?marker) = ''ipns://'' \<and> take 7 ?marker \<noteq> ''ipns://''"
    by (simp add: toLowerCase_def lower_char_def char_of_eq_iff)
  from case_insensitive [of ?upper ?lower] 1
  have 3: "parseAddress ?upper = parseAddress ?lower"
    by blast
  from case_insensitive [of ?marker] 2
  have 4: "parseAddress ?marker = Inl UnsupportedFormat"
    by blast
  from 1 2 3 4 vector_parse_f show ?thesis by blast
qed

text \<open>
  C3, the claim as stated fails: a valid address is parsed, and the same address after
  \<open>IPNS://\<close> fails with the unsupported-format error.
\<close>

theorem case_counterexample:
  "parseAddress
       ''ipns://f017200240801122012c8299ec2c51dffbbcb4f9fccadcee1424cb237e9b30d3cd72d47c18103689d''
     = Inr ([0x01, 0x72, 0x00, 0x24, 0x08, 0x01, 0x12, 0x20] @ vector_pub)
   \<and> parseAddress
       ''IPNS://f017200240801122012c8299ec2c51dffbbcb4f9fccadcee1424cb237e9b30d3cd72d47c18103689d''
     = Inl UnsupportedFormat"
proof
  show "parseAddress
       ''ipns://f017200240801122012c8299ec2c51dffbbcb4f9fccadcee1424cb237e9b30d3cd72d47c18103689d''
     = Inr ([0x01, 0x72, 0x00, 0x24, 0x08, 0x01, 0x12, 0x20] @ vector_pub)"
    by (rule vector_parse_f)
  show "parseAddress
       ''IPNS://f017200240801122012c8299ec2c51dffbbcb4f9fccadcee1424cb237e9b30d3cd72d47c18103689d''
     = Inl UnsupportedFormat"
    by (rule marker_other_case) (simp_all add: toLowerCase_def lower_char_def char_of_eq_iff)
qed

text \<open>
  C4. The check of \<open>hexKey\<close>, as amended. When \<open>hexKey\<close> is computed, \<open>parseAddress\<close>
  succeeds if and only if \<open>hexKey\<close> has 80 characters, begins with \<open>0172002408011220\<close> and
  holds hexadecimal digits only; when the length or the prefix is wrong it fails with
  the prefix error, whose message ends with \<open>hexKey\<close>.
\<close>

theorem structural_validation:
  "parse_hexKey a = Inr h \<Longrightarrow>
     ((\<exists>bs. parseAddress a = Inr bs)
        = (length h = 80 \<and> startsWith h ''0172002408011220''
            \<and> set h \<subseteq> set ''0123456789abcdef''))
     \<and> (\<not> (length h = 80 \<and> startsWith h ''0172002408011220'') \<longrightarrow>
          parseAddress a = Inl (InvalidPrefix h)
          \<and> message (InvalidPrefix h) = Some (''Invalid IPNS Key Prefix: '' @ h))"
  using parseAddress_success [of a h] parseAddress_invalid [of a h]
  unfolding hex_alphabet_def by (simp add: message_def)

theorem structural_validation_witness:
  "parse_hexKey
       ''ipns://f017200240801122012c8299ec2c51dffbbcb4f9fccadcee1424cb237e9b30d3cd72d47c18103689d''
     = Inr ''017200240801122012c8299ec2c51dffbbcb4f9fccadcee1424cb237e9b30d3cd72d47c18103689d''
   \<and> (\<exists>bs. parseAddress
       ''ipns://f017200240801122012c8299ec2c51dffbbcb4f9fccadcee1424cb237e9b30d3cd72d47c18103689d''
     = Inr bs)
   \<and> length ''017200240801122012c8299ec2c51dffbbcb4f9fccadcee1424cb237e9b30d3cd72d47c18103689d''
     = 80
   \<and> startsWith
       ''017200240801122012c8299ec2c51dffbbcb4f9fccadcee1424cb237e9b30d3cd72d47c18103689d''
       ''0172002408011220''
   \<and> set ''017200240801122012c8299ec2c51dffbbcb4f9fccadcee1424cb237e9b30d3cd72d47c18103689d''
     \<subseteq> set ''0123456789abcdef''
   \<and> parse_hexKey ''f0172002408011220'' = Inr ''0172002408011220''
   \<and> \<not> (length ''0172002408011220'' = 80
          \<and> startsWith ''0172002408011220'' ''0172002408011220'')
   \<and> parseAddress ''f0172002408011220'' = Inl (InvalidPrefix ''0172002408011220'')
   \<and> message (InvalidPrefix ''0172002408011220'')
       = Some (''Invalid IPNS Key Prefix: '' @ ''0172002408011220'')"
proof -
  let ?a =
    "''ipns://f017200240801122012c8299ec2c51dffbbcb4f9fccadcee1424cb237e9b30d3cd72d47c18103689d''"
  let ?h =
    "''017200240801122012c8299ec2c51dffbbcb4f9fccadcee1424cb237e9b30d3cd72d47c18103689d''"
  have 1: "parse_hexKey ?a = Inr ?h"
    using parse_f [of "[0x01, 0x72, 0x00, 0x24, 0x08, 0x01, 0x12, 0x20] @ vector_pub"]
    unfolding vector_hex by simp
  have 2: "parse_hexKey ''f0172002408011220'' = Inr ''0172002408011220''"
    by (simp add: parse_hexKey_def normalize_address_def startsWith_def
        slice_str_def toLowerCase_def lower_char_def char_of_eq_iff)
  have 3: "\<not> (length ''0172002408011220'' = 80
          \<and> startsWith ''0172002408011220'' ''0172002408011220'')"
    by simp
  have 4: "length ?h = 80 \<and> startsWith ?h ''0172002408011220''
      \<and> set ?h \<subseteq> set ''0123456789abcdef''"
    by (simp add: startsWith_def)
  from structural_validation [OF 1] 4
  have 5: "\<exists>bs. parseAddress ?a = Inr bs"
    by blast
  from structural_validation [OF 2] 3
  have 6: "parseAddress ''f0172002408011220'' = Inl (InvalidPrefix ''0172002408011220'')
   \<and> message (InvalidPrefix ''0172002408011220'')
       = Some (''Invalid IPNS Key Prefix: '' @ ''0172002408011220'')"
    by blast
  from 1 2 3 4 5 6 show ?thesis by blast
qed

text \<open>
  C4, the claim as stated fails: the address below belongs to the \<open>f\<close> branch, its
  \<open>hexKey\<close> has 80 characters and begins with \<open>0172002408011220\<close>, and \<open>parseAddress\<close>
  fails, inside \<open>hex.decode\<close>.
\<close>

theorem validation_counterexample:
  "parse_hexKey
      ''f0172002408011220000000000000000000000000000000000000000000000000000000000000000z''
     = Inr ''0172002408011220000000000000000000000000000000000000000000000000000000000000000z''
   \<and> length
       ''0172002408011220000000000000000000000000000000000000000000000000000000000000000z'' = 80
   \<and> startsWith
       ''0172002408011220000000000000000000000000000000000000000000000000000000000000000z''
       ''0172002408011220''
   \<and> parseAddress
       ''f0172002408011220000000000000000000000000000000000000000000000000000000000000000z''
     = Inl (LibraryError (UnknownLetter (CHR ''z'')))"
proof (intro conjI)
  let ?s = "''0172002408011220000000000000000000000000000000000000000000000000000000000000000z''"
  show "length ?s = 80" by simp
  show "startsWith ?s ''0172002408011220''" by (simp add: startsWith_def)
  show h: "parse_hexKey (CHR ''f'' # ?s) = Inr ?s"
    by (simp add: parse_hexKey_def normalize_address_def startsWith_def
        slice_str_def toLowerCase_def lower_char_def char_of_eq_iff)
  show "parseAddress (CHR ''f'' # ?s) = Inl (LibraryError (UnknownLetter CHR ''z''))"
    unfolding parseAddress_def h
    by (simp add: and_then_simps lib_simps startsWith_def hex_decode_def toLowerCase_def
        lower_char_def alphabet_decode_def indexOf_def hex_alphabet_def)
qed

text \<open>
  C5. The content hash, as amended: for a seed of 32 bytes with a public key of 32
  bytes, the \<open>contenthash\<close> field is \<open>0x\<close>, then \<open>e501\<close> (the namespace byte \<open>e5\<close> and the
  byte \<open>01\<close>), then the 80 hexadecimal characters of the tagged key, the same 80
  characters that follow \<open>0x\<close> in the \<open>publicKey\<close> field.
\<close>

theorem contenthash_format:
  assumes "length seed = 32" and "length (getPublicKey seed) = 32"
  shows "\<exists>b h. getKeys getPublicKey seed = Inr b
     \<and> hex_encode ([0x01, 0x72, 0x00, 0x24, 0x08, 0x01, 0x12, 0x20] @ getPublicKey seed) = Inr h
     \<and> length h = 80
     \<and> publicKey b = ''0x'' @ h
     \<and> contenthash b = ''0x'' @ ''e501'' @ h"
proof -
  let ?T = "[0x01, 0x72, 0x00, 0x24, 0x08, 0x01, 0x12, 0x20] @ getPublicKey seed"
  from getKeys_result [OF assms(1), of getPublicKey]
  obtain b where "getKeys getPublicKey seed = Inr b"
    and "publicKey b = ''0x'' @ hex_string ?T"
    and "contenthash b = ''0xe501'' @ hex_string ?T"
    by force
  moreover have "length (hex_string ?T) = 80"
    using assms(2) by (simp add: length_hex_string)
  ultimately show ?thesis
    by (simp add: hex_encode_eq)
qed

theorem contenthash_format_witness:
  "length vector_seed = 32 \<and> length (vector_getPublicKey vector_seed) = 32
   \<and> (\<exists>b h. getKeys vector_getPublicKey vector_seed = Inr b
     \<and> hex_encode ([0x01, 0x72, 0x00, 0x24, 0x08, 0x01, 0x12, 0x20] @ vector_getPublicKey vector_seed) = Inr h
     \<and> length h = 80
     \<and> publicKey b = ''0x'' @ h
     \<and> contenthash b = ''0x'' @ ''e501'' @ h)"
proof -
  have 1: "length vector_seed = 32" by (rule vector_lengths)
  have 2: "length (vector_getPublicKey vector_seed) = 32"
    by (simp add: vector_getPublicKey_def vector_lengths)
  from contenthash_format [of vector_seed vector_getPublicKey, OF 1 2] 1 2
  show ?thesis by blast
qed

text \<open>
  C5, the claim as stated fails: on the known vector the \<open>contenthash\<close> field is not
  \<open>0x\<close>, \<open>e5\<close> and the 80 characters of the tagged key.
\<close>

theorem contenthash_counterexample:
  "\<exists>b. getKeys vector_getPublicKey vector_seed = Inr b
     \<and> publicKey b = ''0x'' @
         ''017200240801122012c8299ec2c51dffbbcb4f9fccadcee1424cb237e9b30d3cd72d47c18103689d''
     \<and> contenthash b = ''0x'' @ ''e501'' @
         ''017200240801122012c8299ec2c51dffbbcb4f9fccadcee1424cb237e9b30d3cd72d47c18103689d''
     \<and> contenthash b \<noteq> ''0x'' @ ''e5'' @
         ''017200240801122012c8299ec2c51dffbbcb4f9fccadcee1424cb237e9b30d3cd72d47c18103689d''"
proof -
  have "vector_getPublicKey vector_seed = vector_pub"
    by (simp add: vector_getPublicKey_def)
  from vector_getKeys [of vector_getPublicKey, OF this] show ?thesis by auto
qed

text \<open>
  C6. The known vector, evaluated: for the seed \<open>0681...f597\<close>, with the public key
  \<open>12c8...689d\<close> of the reference data supplied for \<open>ed25519.getPublicKey\<close>, \<open>getKeys\<close>
  returns the bundle below. Its \<open>publicKey\<close> is the tagged key \<open>0172002408011220 12c8...689d\<close>
  in hexadecimal after \<open>0x\<close>; its \<open>base32\<close> field is \<open>ipns://bafzaa...g2e5\<close>, with the scheme
  marker, not the address \<open>bafzaa...g2e5\<close> of the reference data. \<open>parseAddress\<close> of
  \<open>bafzaa...g2e5\<close> returns the tagged key, and \<open>formatPublicKey\<close> of the result, the one
  encoder of bytes in \<open>ipns.ts\<close>, is the base-36 address \<open>ipns://k51q...mmql\<close>: decoding and
  encoding again does not give the address back.
\<close>

theorem known_vector_evaluation:
  "getKeys vector_getPublicKey vector_seed = Inr
     \<lparr> publicKey = ''0x'' @
         ''017200240801122012c8299ec2c51dffbbcb4f9fccadcee1424cb237e9b30d3cd72d47c18103689d'',
       privateKey = ''0x08011240''
         @ ''0681d6420abb1ba47acd5c03c8e5ee84185a2673576b262e234e50c46d86f597''
         @ ''12c8299ec2c51dffbbcb4f9fccadcee1424cb237e9b30d3cd72d47c18103689d'',
       base36 = ''ipns://k51qzi5uqu5dgnfwbc46une4upw1vc9hxznymyeykmg6rev1513yrnbyrwmmql'',
       base32 = ''ipns://bafzaajaiaejcaewifgpmfri57654wt47zsw45ykcjszdp2ntbu6nolkhygaqg2e5'',
       base16 = ''ipns://f'' @
         ''017200240801122012c8299ec2c51dffbbcb4f9fccadcee1424cb237e9b30d3cd72d47c18103689d'',
       contenthash = ''0xe501'' @
         ''017200240801122012c8299ec2c51dffbbcb4f9fccadcee1424cb237e9b30d3cd72d47c18103689d'' \<rparr>
   \<and> parseAddress ''bafzaajaiaejcaewifgpmfri57654wt47zsw45ykcjszdp2ntbu6nolkhygaqg2e5''
     = Inr ([0x01, 0x72, 0x00, 0x24, 0x08, 0x01, 0x12, 0x20] @ vector_pub)
   \<and> and_then (parseAddress ''bafzaajaiaejcaewifgpmfri57654wt47zsw45ykcjszdp2ntbu6nolkhygaqg2e5'')
       formatPublicKey
     = Inr ''ipns://k51qzi5uqu5dgnfwbc46une4upw1vc9hxznymyeykmg6rev1513yrnbyrwmmql''"
  using vector_bundle vector_format
  by (simp add: vector_parse_bare and_then_simps)

text \<open>
  C7. When the address, after the removal of the scheme marker and in lower case, does
  not begin with \<open>k\<close>, \<open>b\<close> or \<open>f\<close> (also when nothing is left of it), \<open>parseAddress\<close> fails
  with the unsupported-format error; \<open>ipns://zXYZ\<close> is such an address.
\<close>

theorem unsupported_format:
  "(take 1 (normalize_address a) \<notin> {''k'', ''b'', ''f''}
      \<longrightarrow> parseAddress a = Inl UnsupportedFormat)
   \<and> parseAddress ''ipns://zXYZ'' = Inl UnsupportedFormat"
proof
  show "take 1 (normalize_address a) \<notin> {''k'', ''b'', ''f''}
      \<longrightarrow> parseAddress a = Inl UnsupportedFormat"
    by (simp add: parseAddress_def parse_hexKey_def startsWith_def and_then_simps)
  show "parseAddress ''ipns://zXYZ'' = Inl UnsupportedFormat"
    by (simp add: parseAddress_def parse_hexKey_def normalize_address_def startsWith_def
        slice_str_def toLowerCase_def lower_char_def char_of_eq_iff and_then_simps)
qed

theorem unsupported_format_witness:
  "take 1 (normalize_address ''ipns://zXYZ'') \<notin> {''k'', ''b'', ''f''}
   \<and> parseAddress ''ipns://zXYZ'' = Inl UnsupportedFormat"
  using unsupported_format [of "''ipns://zXYZ''"]
  by (simp add: normalize_address_def startsWith_def
        slice_str_def toLowerCase_def lower_char_def char_of_eq_iff)

text \<open>
  C8. \<open>getKeys\<close> fails with the seed-length error when the seed has not 32 bytes, and
  returns a bundle, hence no error, when it has: the error is raised exactly for the
  seeds of another length, before anything of the bundle is built.
\<close>

theorem seed_length:
  "(length seed \<noteq> 32 \<longrightarrow> getKeys getPublicKey seed = Inl InvalidSeedLength)
   \<and> (length seed = 32 \<longrightarrow> (\<exists>b. getKeys getPublicKey seed = Inr b))"
proof (intro conjI impI)
  assume "length seed \<noteq> 32"
  then show "getKeys getPublicKey seed = Inl InvalidSeedLength"
    by (simp add: getKeys_def)
next
  assume "length seed = 32"
  from getKeys_result [OF this, of getPublicKey]
  show "\<exists>b. getKeys getPublicKey seed = Inr b" by blast
qed

theorem seed_length_witness:
  "length ([] :: bytes) \<noteq> 32 \<and> getKeys vector_getPublicKey [] = Inl InvalidSeedLength
   \<and> length vector_seed = 32 \<and> (\<exists>b. getKeys vector_getPublicKey vector_seed = Inr b)"
  using seed_length [of "[]" vector_getPublicKey] seed_length [of vector_seed vector_getPublicKey]
    vector_lengths(1)
  by simp

text \<open>
  C9. The tagged key. For a seed of 32 bytes with a public key of 32 bytes, the
  \<open>publicKey\<close> field of the bundle is \<open>0x\<close> followed by the hexadecimal form of the bytes
  that \<open>getKeys\<close> builds, the tag followed by the public key, and decodes to them: 40
  bytes, the first 8 of them the tag. Every byte array that \<open>parseAddress\<close> returns has
  40 bytes, and its first 8 bytes are the tag \<open>01 72 00 24 08 01 12 20\<close>.
\<close>

theorem tagged_key_invariant:
  "(length seed = 32 \<and> length (getPublicKey seed) = 32 \<longrightarrow>
      (\<exists>b h. getKeys getPublicKey seed = Inr b
         \<and> hex_encode ([0x01, 0x72, 0x00, 0x24, 0x08, 0x01, 0x12, 0x20] @ getPublicKey seed) = Inr h
         \<and> publicKey b = ''0x'' @ h
         \<and> hex_decode h = Inr ([0x01, 0x72, 0x00, 0x24, 0x08, 0x01, 0x12, 0x20] @ getPublicKey seed)
         \<and> length ([0x01, 0x72, 0x00, 0x24, 0x08, 0x01, 0x12, 0x20] @ getPublicKey seed) = 40
         \<and> take 8 ([0x01, 0x72, 0x00, 0x24, 0x08, 0x01, 0x12, 0x20] @ getPublicKey seed)
             = [0x01, 0x72, 0x00, 0x24, 0x08, 0x01, 0x12, 0x20]))
   \<and> (parseAddress a = Inr bs \<longrightarrow>
         length bs = 40 \<and> take 8 bs = [0x01, 0x72, 0x00, 0x24, 0x08, 0x01, 0x12, 0x20])"
proof (intro conjI impI)
  assume a: "length seed = 32 \<and> length (getPublicKey seed) = 32"
  let ?T = "[0x01, 0x72, 0x00, 0x24, 0x08, 0x01, 0x12, 0x20] @ getPublicKey seed"
  from a getKeys_result [of seed getPublicKey]
  obtain b where "getKeys getPublicKey seed = Inr b" and "publicKey b = ''0x'' @ hex_string ?T"
    by force
  with a show "\<exists>b h. getKeys getPublicKey seed = Inr b \<and> hex_encode ?T = Inr h
         \<and> publicKey b = ''0x'' @ h \<and> hex_decode h = Inr ?T \<and> length ?T = 40
         \<and> take 8 ?T = [0x01, 0x72, 0x00, 0x24, 0x08, 0x01, 0x12, 0x20]"
    by (simp add: hex_encode_eq hex_decode_hex_string)
next
  assume "parseAddress a = Inr bs"
  from parsed_key_shape [OF this]
  show "length bs = 40" and "take 8 bs = [0x01, 0x72, 0x00, 0x24, 0x08, 0x01, 0x12, 0x20]"
    by simp_all
qed

theorem tagged_key_invariant_witness:
  "length vector_seed = 32 \<and> length (vector_getPublicKey vector_seed) = 32
   \<and> (\<exists>b h. getKeys vector_getPublicKey vector_seed = Inr b
         \<and> hex_encode ([0x01, 0x72, 0x00, 0x24, 0x08, 0x01, 0x12, 0x20]
              @ vector_getPublicKey vector_seed) = Inr h
         \<and> publicKey b = ''0x'' @ h
         \<and> hex_decode h = Inr ([0x01, 0x72, 0x00, 0x24, 0x08, 0x01, 0x12, 0x20]
              @ vector_getPublicKey vector_seed))
   \<and> parseAddress
       ''ipns://f017200240801122012c8299ec2c51dffbbcb4f9fccadcee1424cb237e9b30d3cd72d47c18103689d''
       = Inr ([0x01, 0x72, 0x00, 0x24, 0x08, 0x01, 0x12, 0x20] @ vector_pub)
   \<and> length ([0x01, 0x72, 0x00, 0x24, 0x08, 0x01, 0x12, 0x20] @ vector_pub) = 40
   \<and> take 8 ([0x01, 0x72, 0x00, 0x24, 0x08, 0x01, 0x12, 0x20] @ vector_pub)
       = [0x01, 0x72, 0x00, 0x24, 0x08, 0x01, 0x12, 0x20]"
proof -
  have 1: "length vector_seed = 32 \<and> length (vector_getPublicKey vector_seed) = 32"
    by (simp add: vector_lengths vector_getPublicKey_def)
  note t = tagged_key_invariant [of vector_seed vector_getPublicKey
      "''ipns://f017200240801122012c8299ec2c51dffbbcb4f9fccadcee1424cb237e9b30d3cd72d47c18103689d''"
      "[0x01, 0x72, 0x00, 0x24, 0x08, 0x01, 0x12, 0x20] @ vector_pub"]
  from t 1 vector_parse_f show ?thesis by blast
qed

text \<open>
  C10. On the \<open>f\<close> branch only the prefix and the number of characters are checked before
  the hexadecimal decoding. There is an input \<open>f\<close> followed by 80 characters that begin
  with \<open>0172002408011220\<close> and hold a character that is no hexadecimal digit: its
  \<open>hexKey\<close> is these 80 characters, the check lets it through, and the call fails inside
  \<open>hex.decode\<close>, with the error of the dependency for an unknown letter, which is none of
  the errors that \<open>ipns.ts\<close> throws itself.
\<close>

theorem hex_decoding_failure:
  "\<exists>s c. length s = 80 \<and> startsWith s ''0172002408011220'' \<and> c \<in> set s
     \<and> c \<notin> set ''0123456789abcdefABCDEF''
     \<and> parse_hexKey (CHR ''f'' # s) = Inr s
     \<and> parseAddress (CHR ''f'' # s) = Inl (LibraryError (UnknownLetter c))
     \<and> parseAddress (CHR ''f'' # s) \<noteq> Inl UnsupportedFormat
     \<and> parseAddress (CHR ''f'' # s) \<noteq> Inl InvalidSeedLength
     \<and> (\<forall>h. parseAddress (CHR ''f'' # s) \<noteq> Inl (InvalidPrefix h))"
proof -
  let ?s = "''0172002408011220g000000000000000000000000000000000000000000000000000000000000000''"
  have 1: "length ?s = 80" by simp
  have 2: "startsWith ?s ''0172002408011220''" by (simp add: startsWith_def)
  have 3: "CHR ''g'' \<in> set ?s" by simp
  have 4: "CHR ''g'' \<notin> set ''0123456789abcdefABCDEF''" by simp
  have 5: "parse_hexKey (CHR ''f'' # ?s) = Inr ?s"
    by (simp add: parse_hexKey_def normalize_address_def startsWith_def
        slice_str_def toLowerCase_def lower_char_def char_of_eq_iff)
  have 6: "parseAddress (CHR ''f'' # ?s) = Inl (LibraryError (UnknownLetter (CHR ''g'')))"
    unfolding parseAddress_def 5
    by (simp add: and_then_simps lib_simps startsWith_def hex_decode_def toLowerCase_def
        lower_char_def alphabet_decode_def indexOf_def hex_alphabet_def)
  have 7: "parseAddress (CHR ''f'' # ?s) \<noteq> Inl UnsupportedFormat"
    and 8: "parseAddress (CHR ''f'' # ?s) \<noteq> Inl InvalidSeedLength"
    and 9: "\<forall>h. parseAddress (CHR ''f'' # ?s) \<noteq> Inl (InvalidPrefix h)"
    unfolding 6 by simp_all
  from 1 2 3 4 5 6 7 8 9 show ?thesis by blast
qed

end
